theory Spec2Isabelle
  imports Complex_Main "HOL-Library.Word" "HOL-Library.List_Lexorder"
begin

section \<open>JavaScript values shared by both modules\<close>

text \<open>
  A JavaScript string is a sequence of 16-bit code units: \<open>length\<close> is the string's
  \<open>length\<close> and the elements are what \<open>charCodeAt\<close> returns. \<open>js\<close> embeds an ASCII
  literal. Lists of words are ordered lexicographically, which is the order IndexedDB
  gives to string keys.
\<close>

type_synonym jsstring = "16 word list"

definition js :: "string \<Rightarrow> jsstring" where
  "js s = map of_char s"

text \<open>Truthiness of a value that is a string or \<open>null\<close>/\<open>undefined\<close>: the empty string is falsy.\<close>

definition truthy :: "jsstring option \<Rightarrow> bool" where
  "truthy v = (case v of None \<Rightarrow> False | Some s \<Rightarrow> s \<noteq> [])"

text \<open>\<open>v || undefined\<close>\<close>

definition orUndefined :: "jsstring option \<Rightarrow> jsstring option" where
  "orUndefined v = (if truthy v then v else None)"

datatype js_error = RangeError | TypeError | OpenError | AbortError

text \<open>
  The state of a promise when nothing more will happen to it: resolved with a value,
  rejected with an error, or never settled.
\<close>

datatype 'a promise = Resolved 'a | Rejected js_error | Pending


section \<open>Record store (IndexedDB persistence of notes)\<close>

subsection \<open>Numbers\<close>

text \<open>
  A JavaScript number is an IEEE 754 double: a finite value, given here by the rational
  it denotes, or NaN, or one of the two infinities. The sign of zero is not represented;
  in the operations below \<open>-0\<close> behaves as \<open>0\<close>.
\<close>

datatype number = Finite rat | NaN | PosInf | NegInf

text \<open>
  Rounding a rational to the nearest double, ties to the even significand: \<open>binade q\<close>
  is the exponent \<open>e\<close> with \<open>2\<^sup>e \<le> |q| < 2\<^sup>e\<^sup>+\<^sup>1\<close>, the doubles of that binade are the
  multiples of \<open>2\<^sup>e\<^sup>-\<^sup>5\<^sup>2\<close> (of \<open>2\<^sup>-\<^sup>1\<^sup>0\<^sup>7\<^sup>4\<close> below the normal range), and a result of
  magnitude \<open>2\<^sup>1\<^sup>0\<^sup>2\<^sup>4\<close> or more is an infinity.
\<close>

function log2floor :: "int \<Rightarrow> int" where
  "log2floor n = (if n < 2 then 0 else log2floor (n div 2) + 1)"
  by pat_completeness auto
termination
  by (relation "measure nat") auto

declare log2floor.simps [simp del]

definition binade :: "rat \<Rightarrow> int" where
  "binade q =
     (let (a, b) = quotient_of q;
          d = log2floor \<bar>a\<bar> - log2floor b
      in if 2 powi d \<le> \<bar>q\<bar> then d else d - 1)"

definition roundTiesToEven :: "rat \<Rightarrow> int" where
  "roundTiesToEven x =
     (let f = \<lfloor>x\<rfloor>; r = x - of_int f
      in if r < 1 / 2 then f
         else if 1 / 2 < r then f + 1
         else if even f then f else f + 1)"

definition round64 :: "rat \<Rightarrow> number" where
  "round64 q =
     (if q = 0 then Finite 0
      else
        let ulp = 2 powi (max (binade q) (- 1022) - 52);
            r = of_int (roundTiesToEven (q / ulp)) * ulp
        in if 2 powi 1024 \<le> \<bar>r\<bar> then (if 0 < q then PosInf else NegInf) else Finite r)"

text \<open>The operators \<open>+\<close> and \<open><\<close> on numbers.\<close>

fun number_add :: "number \<Rightarrow> number \<Rightarrow> number" where
  "number_add (Finite a) (Finite b) = round64 (a + b)"
| "number_add NaN y = NaN"
| "number_add x NaN = NaN"
| "number_add PosInf NegInf = NaN"
| "number_add NegInf PosInf = NaN"
| "number_add PosInf y = PosInf"
| "number_add x PosInf = PosInf"
| "number_add NegInf y = NegInf"
| "number_add x NegInf = NegInf"

fun number_less :: "number \<Rightarrow> number \<Rightarrow> bool" where
  "number_less (Finite a) (Finite b) = (a < b)"
| "number_less NaN y = False"
| "number_less x NaN = False"
| "number_less NegInf NegInf = False"
| "number_less NegInf y = True"
| "number_less x PosInf = (x \<noteq> PosInf)"
| "number_less x y = False"

text \<open>A size that is zero, negative or \<open>-Infinity\<close>.\<close>

fun nonpositive :: "number \<Rightarrow> bool" where
  "nonpositive (Finite q) = (q \<le> 0)"
| "nonpositive NegInf = True"
| "nonpositive NaN = False"
| "nonpositive PosInf = False"

subsection \<open>Chunking\<close>

text \<open>
  \<open>String.prototype.slice\<close>: each argument is truncated towards zero (NaN counts as 0),
  a negative index counts from the end, and both ends are clamped to the string.
\<close>

definition truncate_rat :: "rat \<Rightarrow> int" where
  "truncate_rat q = (if 0 \<le> q then \<lfloor>q\<rfloor> else \<lceil>q\<rceil>)"

fun relativeIndex :: "number \<Rightarrow> int \<Rightarrow> int" where
  "relativeIndex (Finite q) len =
     (let i = truncate_rat q in if i < 0 then max (len + i) 0 else min i len)"
| "relativeIndex NaN len = 0"
| "relativeIndex PosInf len = len"
| "relativeIndex NegInf len = 0"

definition slice :: "jsstring \<Rightarrow> number \<Rightarrow> number \<Rightarrow> jsstring" where
  "slice s a b =
     (let len = int (length s);
          from = relativeIndex a len;
          to = relativeIndex b len
      in take (nat (to - from)) (drop (nat from) s))"

text \<open>
  The \<open>while\<close> loop of \<open>splitLargeContent\<close>, with \<open>start\<close> and \<open>maxChunkSize\<close> the
  numbers they are at run time; \<open>None\<close> is a loop that does not end. A call that leaves
  \<open>maxChunkSize\<close> out is the call with the default, \<open>Finite 500000\<close>.
\<close>

partial_function (option) splitLoop ::
  "jsstring \<Rightarrow> number \<Rightarrow> number \<Rightarrow> jsstring list \<Rightarrow> jsstring list option" where
  "splitLoop content maxChunkSize start chunks =
     (if number_less start (Finite (of_nat (length content)))
      then splitLoop content maxChunkSize (number_add start maxChunkSize)
             (chunks @ [slice content start (number_add start maxChunkSize)])
      else Some chunks)"

declare splitLoop.simps [code]

definition splitLargeContent :: "jsstring \<Rightarrow> number \<Rightarrow> jsstring list option" where
  "splitLargeContent content maxChunkSize = splitLoop content maxChunkSize (Finite 0) []"

subsection \<open>Timestamps\<close>

text \<open>
  A \<open>Date\<close> object holds a time value, an integral number of milliseconds since the
  epoch, or is an Invalid Date. \<open>toISOString\<close> and the \<open>Date\<close> constructor belong to the
  platform: the ISO text written for the time value \<open>t\<close> is represented by \<open>ISO t\<close>, and
  parsing that text gives the time value back, as ECMAScript specifies for the output of
  \<open>toISOString\<close>. \<open>toISOString\<close> raises \<open>RangeError\<close> on an Invalid Date.
\<close>

datatype Date = Date int | InvalidDate

datatype iso = ISO int

fun toISOString :: "Date \<Rightarrow> js_error + iso" where
  "toISOString (Date t) = Inr (ISO t)"
| "toISOString InvalidDate = Inl RangeError"

fun new_Date :: "iso \<Rightarrow> Date" where
  "new_Date (ISO t) = Date t"

text \<open>
  What an optional timestamp field of a note holds at run time: a \<open>Date\<close> object, or
  the serialized text that \<open>loadNotesFromLocalStorage\<close> leaves as it found it.
\<close>

datatype tsval = IsDate Date | IsText iso

text \<open>\<open>v?.toISOString()\<close>: \<open>undefined\<close> stays, a string has no such method.\<close>

fun opt_toISOString :: "tsval option \<Rightarrow> js_error + iso option" where
  "opt_toISOString None = Inr None"
| "opt_toISOString (Some (IsDate d)) =
     (case toISOString d of Inl e \<Rightarrow> Inl e | Inr s \<Rightarrow> Inr (Some s))"
| "opt_toISOString (Some (IsText s)) = Inl TypeError"

subsection \<open>Notes in memory and in storage\<close>

text \<open>
  One object shape serves the note in memory (timestamps are \<open>Date\<close> objects) and the
  stored record (timestamps are ISO texts); the fields that the code copies with
  \<open>...note\<close> are \<open>note_id\<close>, \<open>title\<close>, \<open>content\<close> and \<open>folderId\<close>, and \<open>audio\<close> for
  \<open>...r\<close>.
\<close>

record 't VoiceRecording =
  audio :: jsstring
  timestamp :: 't

record ('t, 'o) NoteRecord =
  note_id :: jsstring
  title :: jsstring
  content :: jsstring
  folderId :: "jsstring option"
  createdAt :: 't
  updatedAt :: 't
  archivedAt :: "'o option"
  deletedAt :: "'o option"
  reminderTime :: "'o option"
  voiceRecordings :: "'t VoiceRecording list option"

type_synonym Note = "(Date, tsval) NoteRecord"
type_synonym StoredNote = "(iso, iso) NoteRecord"

subsection \<open>Serializing a note (the object literal of \<open>saveNotesToDB\<close>)\<close>

definition bind_err :: "'e + 'a \<Rightarrow> ('a \<Rightarrow> 'e + 'b) \<Rightarrow> 'e + 'b" where
  "bind_err r f = (case r of Inl e \<Rightarrow> Inl e | Inr x \<Rightarrow> f x)"

fun map_err :: "('a \<Rightarrow> 'e + 'b) \<Rightarrow> 'a list \<Rightarrow> 'e + 'b list" where
  "map_err f [] = Inr []"
| "map_err f (x # xs) =
     bind_err (f x) (\<lambda>y. bind_err (map_err f xs) (\<lambda>ys. Inr (y # ys)))"

definition serializeRecording :: "Date VoiceRecording \<Rightarrow> js_error + iso VoiceRecording" where
  "serializeRecording r =
     bind_err (toISOString (timestamp r)) (\<lambda>t. Inr \<lparr>audio = audio r, timestamp = t\<rparr>)"

text \<open>\<open>note.voiceRecordings?.map(...) || []\<close>\<close>

definition serializeRecordings ::
  "Date VoiceRecording list option \<Rightarrow> js_error + iso VoiceRecording list" where
  "serializeRecordings v =
     (case v of None \<Rightarrow> Inr [] | Some rs \<Rightarrow> map_err serializeRecording rs)"

definition serialize :: "Note \<Rightarrow> js_error + StoredNote" where
  "serialize note =
     bind_err (toISOString (createdAt note)) (\<lambda>c.
     bind_err (toISOString (updatedAt note)) (\<lambda>u.
     bind_err (opt_toISOString (archivedAt note)) (\<lambda>a.
     bind_err (opt_toISOString (deletedAt note)) (\<lambda>d.
     bind_err (opt_toISOString (reminderTime note)) (\<lambda>r.
     bind_err (serializeRecordings (voiceRecordings note)) (\<lambda>vs.
       Inr \<lparr>note_id = note_id note, title = title note, content = content note,
            folderId = folderId note, createdAt = c, updatedAt = u, archivedAt = a,
            deletedAt = d, reminderTime = r, voiceRecordings = Some vs\<rparr>))))))"

subsection \<open>Reviving a stored record (the \<open>map\<close> callbacks of the two loaders)\<close>

definition reviveRecording :: "iso VoiceRecording \<Rightarrow> Date VoiceRecording" where
  "reviveRecording r = \<lparr>audio = audio r, timestamp = new_Date (timestamp r)\<rparr>"

text \<open>\<open>note.voiceRecordings?.map(...) || []\<close>\<close>

definition reviveRecordings :: "iso VoiceRecording list option \<Rightarrow> Date VoiceRecording list" where
  "reviveRecordings v = (case v of None \<Rightarrow> [] | Some rs \<Rightarrow> map reviveRecording rs)"

text \<open>
  In \<open>loadNotesFromDB\<close>: \<open>note.archivedAt ? new Date(note.archivedAt) : undefined\<close>;
  an ISO text is never empty, so a present value is truthy.
\<close>

definition revive :: "StoredNote \<Rightarrow> Note" where
  "revive note =
     \<lparr>note_id = note_id note, title = title note, content = content note,
      folderId = folderId note,
      createdAt = new_Date (createdAt note), updatedAt = new_Date (updatedAt note),
      archivedAt = map_option (\<lambda>s. IsDate (new_Date s)) (archivedAt note),
      deletedAt = map_option (\<lambda>s. IsDate (new_Date s)) (deletedAt note),
      reminderTime = map_option (\<lambda>s. IsDate (new_Date s)) (reminderTime note),
      voiceRecordings = Some (reviveRecordings (voiceRecordings note))\<rparr>"

text \<open>
  In \<open>loadNotesFromLocalStorage\<close> only \<open>createdAt\<close>, \<open>updatedAt\<close> and the recordings are
  revived; \<open>archivedAt\<close>, \<open>deletedAt\<close> and \<open>reminderTime\<close> come through \<open>...n\<close> as text.
\<close>

definition reviveLegacy :: "StoredNote \<Rightarrow> Note" where
  "reviveLegacy n =
     \<lparr>note_id = note_id n, title = title n, content = content n, folderId = folderId n,
      createdAt = new_Date (createdAt n), updatedAt = new_Date (updatedAt n),
      archivedAt = map_option IsText (archivedAt n),
      deletedAt = map_option IsText (deletedAt n),
      reminderTime = map_option IsText (reminderTime n),
      voiceRecordings = Some (reviveRecordings (voiceRecordings n))\<rparr>"

subsection \<open>The two backends\<close>

text \<open>
  The object store \<open>notes\<close> has key path \<open>id\<close>: it holds at most one record per key and
  \<open>getAll\<close> returns the records in ascending key order. It is the list of its records in
  that order; \<open>put\<close> inserts a record or replaces the record with the same key.
\<close>

fun put :: "StoredNote \<Rightarrow> StoredNote list \<Rightarrow> StoredNote list" where
  "put r [] = [r]"
| "put r (x # xs) =
     (if note_id r < note_id x then r # x # xs
      else if note_id r = note_id x then r # xs
      else x # put r xs)"

text \<open>
  The entry \<open>notes\<close> of localStorage, seen through \<open>JSON.parse\<close>: the JSON text of an
  array of stored records, or any other text (empty, not JSON, not an array), on which
  the body of \<open>loadNotesFromLocalStorage\<close> yields no note.
\<close>

datatype legacy = NotesJSON "StoredNote list" | OtherText

text \<open>
  \<open>db\<close> is the module variable caching the connection, \<open>idb\<close> the object store,
  \<open>ls_notes\<close> and \<open>ls_migrated\<close> the localStorage entries \<open>notes\<close> and
  \<open>notes_migrated_to_indexeddb\<close>. Calls on localStorage are taken to succeed, and a
  transaction to commit unless one of its event handlers throws.
\<close>

record storage =
  db :: bool
  idb :: "StoredNote list"
  ls_notes :: "legacy option"
  ls_migrated :: "jsstring option"

text \<open>\<open>opens\<close> tells whether the request of \<open>indexedDB.open\<close> would succeed at this call.\<close>

definition openDB :: "bool \<Rightarrow> storage \<Rightarrow> (js_error + unit) \<times> storage" where
  "openDB opens s =
     (if db s then (Inr (), s)
      else if opens then (Inr (), s\<lparr>db := True\<rparr>)
      else (Inl OpenError, s))"

definition loadNotesFromLocalStorage :: "storage \<Rightarrow> Note list" where
  "loadNotesFromLocalStorage s =
     (case ls_notes s of
        Some (NotesJSON parsed) \<Rightarrow> map reviveLegacy parsed
      | Some OtherText \<Rightarrow> []
      | None \<Rightarrow> [])"

definition loadNotesFromDB :: "bool \<Rightarrow> storage \<Rightarrow> Note list promise \<times> storage" where
  "loadNotesFromDB opens s =
     (case openDB opens s of
        (Inr database, s') \<Rightarrow> (Resolved (map revive (idb s')), s')
      | (Inl error, s') \<Rightarrow> (Resolved (loadNotesFromLocalStorage s'), s'))"

text \<open>
  \<open>notes.forEach(note => store.put({...}))\<close> on the store: the result is the store
  after all puts, or the error raised by the first note that does not serialize together
  with the number of put requests issued before it.
\<close>

fun forEach_put :: "Note list \<Rightarrow> nat \<Rightarrow> StoredNote list \<Rightarrow> (js_error \<times> nat) + StoredNote list" where
  "forEach_put [] issued store = Inr store"
| "forEach_put (note # notes) issued store =
     (case serialize note of
        Inl e \<Rightarrow> Inl (e, issued)
      | Inr r \<Rightarrow> forEach_put notes (Suc issued) (put r store))"

text \<open>
  With the database open, the transaction clears the store and puts every note. When the
  handler of the clear request throws, IndexedDB aborts the transaction: the store keeps
  its prior contents, the put requests still queued receive an error event, which reaches
  \<open>transaction.onerror\<close> and rejects the promise; with no put queued no handler of the
  code runs and the promise never settles. A rejection of the returned promise is not
  caught by the \<open>try\<close> around it. When the database does not open, the \<open>catch\<close> logs and
  the call resolves.
\<close>

definition saveNotesToDB :: "bool \<Rightarrow> Note list \<Rightarrow> storage \<Rightarrow> unit promise \<times> storage" where
  "saveNotesToDB opens notes s =
     (case openDB opens s of
        (Inl error, s') \<Rightarrow> (Resolved (), s')
      | (Inr database, s') \<Rightarrow>
          (case forEach_put notes 0 [] of
             Inr store \<Rightarrow> (Resolved (), s'\<lparr>idb := store\<rparr>)
           | Inl (e, issued) \<Rightarrow>
               (if issued = 0 then (Pending, s') else (Rejected AbortError, s'))))"

definition migrateNotesToIndexedDB :: "bool \<Rightarrow> storage \<Rightarrow> bool promise \<times> storage" where
  "migrateNotesToIndexedDB opens s =
     (if ls_migrated s = Some (js ''true'') then (Resolved False, s\<lparr>ls_notes := None\<rparr>)
      else
        let notes = loadNotesFromLocalStorage s in
        if length notes > 0 then
          (case saveNotesToDB opens notes s of
             (Resolved u, s') \<Rightarrow>
               (Resolved True, s'\<lparr>ls_migrated := Some (js ''true''), ls_notes := None\<rparr>)
           | (Rejected error, s') \<Rightarrow> (Resolved False, s')
           | (Pending, s') \<Rightarrow> (Pending, s'))
        else (Resolved False, s\<lparr>ls_migrated := Some (js ''true'')\<rparr>))"

subsection \<open>Well-typed notes\<close>

text \<open>
  A note as its type describes it: every timestamp is a \<open>Date\<close> object holding a time
  value, and \<open>voiceRecordings\<close> is an array.
\<close>

fun validDate :: "Date \<Rightarrow> bool" where
  "validDate (Date t) = True"
| "validDate InvalidDate = False"

fun validOptionalDate :: "tsval option \<Rightarrow> bool" where
  "validOptionalDate None = True"
| "validOptionalDate (Some (IsDate d)) = validDate d"
| "validOptionalDate (Some (IsText s)) = False"

definition wellTyped :: "Note \<Rightarrow> bool" where
  "wellTyped note =
     (validDate (createdAt note) \<and> validDate (updatedAt note) \<and>
      validOptionalDate (archivedAt note) \<and> validOptionalDate (deletedAt note) \<and>
      validOptionalDate (reminderTime note) \<and>
      (case voiceRecordings note of
         None \<Rightarrow> False
       | Some rs \<Rightarrow> list_all (\<lambda>r. validDate (timestamp r)) rs))"

text \<open>The record that \<open>saveNotesToDB\<close> writes for a note that serializes.\<close>

definition stored :: "Note \<Rightarrow> StoredNote" where
  "stored note = projr (serialize note)"

subsection \<open>Write scheduler\<close>

text \<open>
  The timers of the event loop, in logical milliseconds: \<open>pending\<close> lists the scheduled
  timers in creation order, each with its handle, its due time and the notes its callback
  will pass to \<open>saveNotesToDB\<close>; \<open>saveTimeout\<close> is the module variable; \<open>saves\<close> logs the
  calls of \<open>saveNotesToDB\<close> made by fired callbacks. A timer handle is always truthy.
\<close>

record 'n scheduler =
  clock :: nat
  next_handle :: nat
  pending :: "(nat \<times> nat \<times> 'n) list"
  saveTimeout :: "nat option"
  saves :: "'n list"

definition setTimeout :: "'n \<Rightarrow> nat \<Rightarrow> 'n scheduler \<Rightarrow> nat \<times> 'n scheduler" where
  "setTimeout notes delay s =
     (next_handle s,
      s\<lparr>pending := pending s @ [(next_handle s, clock s + delay, notes)],
        next_handle := Suc (next_handle s)\<rparr>)"

definition clearTimeout :: "nat \<Rightarrow> 'n scheduler \<Rightarrow> 'n scheduler" where
  "clearTimeout h s = s\<lparr>pending := filter (\<lambda>(h', due, notes). h' \<noteq> h) (pending s)\<rparr>"

definition debouncedSaveNotes :: "'n \<Rightarrow> nat \<Rightarrow> 'n scheduler \<Rightarrow> 'n scheduler" where
  "debouncedSaveNotes notes delay s =
     (let s1 = (case saveTimeout s of Some h \<Rightarrow> clearTimeout h s | None \<Rightarrow> s);
          (h, s2) = setTimeout notes delay s1
      in s2\<lparr>saveTimeout := Some h\<rparr>)"

text \<open>
  \<open>d\<close> milliseconds pass: the timers that fall due fire in the order of their due times
  (creation order among equals), each calling \<open>saveNotesToDB\<close> with its notes.
\<close>

definition elapse :: "nat \<Rightarrow> 'n scheduler \<Rightarrow> 'n scheduler" where
  "elapse d s =
     (let now = clock s + d;
          fired = sort_key (\<lambda>(h, due, notes). due) (filter (\<lambda>(h, due, notes). due \<le> now) (pending s))
      in s\<lparr>clock := now,
           pending := filter (\<lambda>(h, due, notes). \<not> due \<le> now) (pending s),
           saves := saves s @ map (\<lambda>(h, due, notes). notes) fired\<rparr>)"

text \<open>
  A sequence of calls, each given as the time passed since the previous event, the notes
  and the delay; \<open>run\<close> returns every state the scheduler goes through, last first.
\<close>

fun run :: "(nat \<times> 'n \<times> nat) list \<Rightarrow> 'n scheduler \<Rightarrow> 'n scheduler list \<Rightarrow> 'n scheduler list" where
  "run [] s history = s # history"
| "run ((gap, notes, delay) # calls) s history =
     run calls (debouncedSaveNotes notes delay (elapse gap s)) (elapse gap s # s # history)"

text \<open>Every call after the first comes before the delay of the call before it has passed.\<close>

fun within_quiet :: "nat \<Rightarrow> (nat \<times> 'n \<times> nat) list \<Rightarrow> bool" where
  "within_quiet quiet [] = True"
| "within_quiet quiet ((gap, notes, delay) # calls) = (gap < quiet \<and> within_quiet delay calls)"

text \<open>The only pending timer is the one \<open>saveTimeout\<close> names, set for \<open>notes\<close> and due after \<open>quiet\<close>.\<close>

definition armed :: "'n \<Rightarrow> nat \<Rightarrow> 'n scheduler \<Rightarrow> bool" where
  "armed notes quiet s =
     (case saveTimeout s of
        None \<Rightarrow> False
      | Some h \<Rightarrow> pending s = [(h, clock s + quiet, notes)])"

subsection \<open>Sample data\<close>

text \<open>
  Two notes, the records a legacy store holds for them, a legacy record of an archived
  note with a reminder, three storage states and a scheduler with no timer.
\<close>

definition note_a :: Note where
  "note_a =
     \<lparr>note_id = js ''a'', title = js ''Groceries'', content = js ''<p>milk</p>'',
      folderId = None, createdAt = Date 1700000000000, updatedAt = Date 1700000000500,
      archivedAt = None, deletedAt = None, reminderTime = Some (IsDate (Date 1700000600000)),
      voiceRecordings = Some [\<lparr>audio = js ''rec-1'', timestamp = Date 1700000000123\<rparr>]\<rparr>"

definition note_b :: Note where
  "note_b =
     \<lparr>note_id = js ''b'', title = js ''Ideas'', content = js ''<p>sketch</p>'',
      folderId = Some (js ''work''), createdAt = Date 1600000000000, updatedAt = Date 1600000000001,
      archivedAt = Some (IsDate (Date 1650000000000)), deletedAt = None, reminderTime = None,
      voiceRecordings = Some []\<rparr>"

definition empty_storage :: storage where
  "empty_storage = \<lparr>db = False, idb = [], ls_notes = None, ls_migrated = None\<rparr>"

definition stored_a :: StoredNote where
  "stored_a =
     \<lparr>note_id = js ''a'', title = js ''Groceries'', content = js ''<p>milk</p>'',
      folderId = None, createdAt = ISO 1700000000000, updatedAt = ISO 1700000000500,
      archivedAt = None, deletedAt = None, reminderTime = None,
      voiceRecordings = Some [\<lparr>audio = js ''rec-1'', timestamp = ISO 1700000000123\<rparr>]\<rparr>"

definition stored_b :: StoredNote where
  "stored_b =
     \<lparr>note_id = js ''b'', title = js ''Ideas'', content = js ''<p>sketch</p>'',
      folderId = Some (js ''work''), createdAt = ISO 1600000000000, updatedAt = ISO 1600000000001,
      archivedAt = None, deletedAt = None, reminderTime = None, voiceRecordings = None\<rparr>"

definition legacy_storage :: storage where
  "legacy_storage =
     \<lparr>db = False, idb = [], ls_notes = Some (NotesJSON [stored_b, stored_a]), ls_migrated = None\<rparr>"

definition stored_c :: StoredNote where
  "stored_c =
     \<lparr>note_id = js ''c'', title = js ''Trip'', content = js ''<p>tickets</p>'',
      folderId = Some (js ''travel''), createdAt = ISO 1500000000000, updatedAt = ISO 1500000000999,
      archivedAt = Some (ISO 1550000000000), deletedAt = None,
      reminderTime = Some (ISO 1560000000000),
      voiceRecordings = Some [\<lparr>audio = js ''rec-9'', timestamp = ISO 1500000000777\<rparr>]\<rparr>"

text \<open>
  A state left by an earlier session: the object store holds one record, the legacy entry
  two, and no connection is cached.
\<close>

definition unopened_storage :: storage where
  "unopened_storage =
     \<lparr>db = False, idb = [stored_a], ls_notes = Some (NotesJSON [stored_c, stored_b]),
      ls_migrated = None\<rparr>"

definition idle_scheduler :: "'n scheduler" where
  "idle_scheduler = \<lparr>clock = 0, next_handle = 1, pending = [], saveTimeout = None, saves = []\<rparr>"


section \<open>Protection manager (password and biometric gate)\<close>

subsection \<open>Key derivation\<close>

text \<open>
  \<open>Number.prototype.toString(radix)\<close> on a natural number: digits \<open>0-9\<close>, then \<open>a-z\<close>.
\<close>

definition digitChar :: "nat \<Rightarrow> 16 word" where
  "digitChar d = (if d < 10 then of_nat (48 + d) else of_nat (87 + d))"

function toStringRadix :: "nat \<Rightarrow> nat \<Rightarrow> jsstring" where
  "toStringRadix radix n =
     (if n < radix \<or> radix < 2 then [digitChar n]
      else toStringRadix radix (n div radix) @ [digitChar (n mod radix)])"
  by pat_completeness auto
termination
  by (relation "measure snd") auto

text \<open>The same for a signed integer: a minus sign, then the digits of the magnitude.\<close>

definition toStringRadixInt :: "nat \<Rightarrow> int \<Rightarrow> jsstring" where
  "toStringRadixInt radix i =
     (if i < 0 then js ''-'' @ toStringRadix radix (nat (- i)) else toStringRadix radix (nat i))"

definition padStart :: "nat \<Rightarrow> 16 word \<Rightarrow> jsstring \<Rightarrow> jsstring" where
  "padStart n c s = replicate (n - length s) c @ s"

definition byteToHex :: "8 word \<Rightarrow> jsstring" where
  "byteToHex byte = padStart 2 (of_char CHR ''0'') (toStringRadix 16 (unat byte))"

definition bufferToHex :: "8 word list \<Rightarrow> jsstring" where
  "bufferToHex buffer = concat (map byteToHex buffer)"

text \<open>
  What the platform supplies: whether the app runs on a native platform, whether
  \<open>NativeBiometric.verifyIdentity\<close> resolves (it rejects on failure or cancellation), the
  bytes \<open>crypto.getRandomValues\<close> writes at each index, and PBKDF2 (SHA-256, 100000
  iterations, 256 bits) of the encoded password and salt as the byte at each index of the
  result, or \<open>None\<close> where Web Crypto raises.
\<close>

record platform =
  isNativePlatform :: bool
  verifyIdentity :: bool
  getRandomValues :: "nat \<Rightarrow> 8 word"
  deriveBits :: "jsstring \<Rightarrow> jsstring \<Rightarrow> (nat \<Rightarrow> 8 word) option"

definition authenticateWithBiometric :: "platform \<Rightarrow> bool" where
  "authenticateWithBiometric plat =
     (if \<not> isNativePlatform plat then False else verifyIdentity plat)"

definition generateSalt :: "platform \<Rightarrow> jsstring" where
  "generateSalt plat = concat (map (\<lambda>i. byteToHex (getRandomValues plat i)) [0..<16])"

text \<open>
  The loop shared by \<open>fallbackHash\<close> and \<open>hashPassword\<close>:
  \<open>hash = ((hash << 5) - hash) + char; hash = hash & hash\<close>, a 32-bit integer after
  each round.
\<close>

fun hashLoop :: "32 word \<Rightarrow> jsstring \<Rightarrow> 32 word" where
  "hashLoop hash [] = hash"
| "hashLoop hash (char # rest) = hashLoop ((push_bit 5 hash - hash) + ucast char) rest"

definition fallbackHash :: "jsstring \<Rightarrow> jsstring" where
  "fallbackHash input = js ''fallback_'' @ toStringRadix 36 (nat \<bar>sint (hashLoop 0 input)\<bar>)"

definition hashPasswordAsync :: "platform \<Rightarrow> jsstring \<Rightarrow> jsstring \<Rightarrow> jsstring" where
  "hashPasswordAsync plat password salt =
     (case deriveBits plat password salt of
        Some derivedBits \<Rightarrow> bufferToHex (map derivedBits [0..<32])
      | None \<Rightarrow> fallbackHash (password @ salt))"

text \<open>The lookup of the salt in \<open>hashPassword\<close> only decides whether a warning is logged.\<close>

definition hashPassword :: "jsstring \<Rightarrow> jsstring" where
  "hashPassword password =
     toStringRadixInt 36 (sint (hashLoop 0 password)) @ toStringRadix 36 (length password)"

definition hashPasswordSecure :: "platform \<Rightarrow> jsstring \<Rightarrow> jsstring option \<Rightarrow> jsstring \<times> jsstring" where
  "hashPasswordSecure plat password salt =
     (let useSalt = (case orUndefined salt of Some s \<Rightarrow> s | None \<Rightarrow> generateSalt plat)
      in (hashPasswordAsync plat password useSalt, useSalt))"

definition verifyPassword :: "platform \<Rightarrow> jsstring \<Rightarrow> jsstring \<Rightarrow> jsstring option \<Rightarrow> bool" where
  "verifyPassword plat password hashedPassword salt =
     (if truthy salt then fst (hashPasswordSecure plat password salt) = hashedPassword
      else hashPassword password = hashedPassword)"

subsection \<open>Hidden notes (the global scope)\<close>

type_synonym localStorage = "jsstring \<rightharpoonup> jsstring"

definition HIDDEN_NOTES_PASSWORD_KEY :: jsstring where
  "HIDDEN_NOTES_PASSWORD_KEY = js ''npd_hidden_notes_password''"

definition HIDDEN_NOTES_SALT_KEY :: jsstring where
  "HIDDEN_NOTES_SALT_KEY = js ''npd_hidden_notes_salt''"

definition HIDDEN_NOTES_USE_BIOMETRIC_KEY :: jsstring where
  "HIDDEN_NOTES_USE_BIOMETRIC_KEY = js ''npd_hidden_notes_use_biometric''"

record NoteProtection =
  hasPassword :: bool
  useBiometric :: bool

definition getHiddenNotesSettings :: "localStorage \<Rightarrow> NoteProtection" where
  "getHiddenNotesSettings ls =
     \<lparr>hasPassword = truthy (ls HIDDEN_NOTES_PASSWORD_KEY),
      useBiometric = (ls HIDDEN_NOTES_USE_BIOMETRIC_KEY = Some (js ''true''))\<rparr>"

definition setHiddenNotesPassword :: "platform \<Rightarrow> jsstring \<Rightarrow> localStorage \<Rightarrow> localStorage" where
  "setHiddenNotesPassword plat password ls =
     (let (hash, salt) = hashPasswordSecure plat password None
      in ls(HIDDEN_NOTES_PASSWORD_KEY \<mapsto> hash, HIDDEN_NOTES_SALT_KEY \<mapsto> salt))"

definition verifyHiddenNotesPassword :: "platform \<Rightarrow> localStorage \<Rightarrow> jsstring \<Rightarrow> bool" where
  "verifyHiddenNotesPassword plat ls password =
     (case orUndefined (ls HIDDEN_NOTES_PASSWORD_KEY) of
        None \<Rightarrow> False
      | Some storedHash \<Rightarrow>
          verifyPassword plat password storedHash (orUndefined (ls HIDDEN_NOTES_SALT_KEY)))"

definition setHiddenNotesBiometric :: "bool \<Rightarrow> localStorage \<Rightarrow> localStorage" where
  "setHiddenNotesBiometric enabled ls =
     ls(HIDDEN_NOTES_USE_BIOMETRIC_KEY \<mapsto> (if enabled then js ''true'' else js ''false''))"

definition clearHiddenNotesProtection :: "localStorage \<Rightarrow> localStorage" where
  "clearHiddenNotesProtection ls =
     ls(HIDDEN_NOTES_PASSWORD_KEY := None, HIDDEN_NOTES_SALT_KEY := None,
        HIDDEN_NOTES_USE_BIOMETRIC_KEY := None)"

text \<open>
  An authentication returns its verdict and, in order, what it ran to reach it: the
  biometric gate, the check of a password against the stored hash.
\<close>

datatype event = BiometricAttempt | PasswordCheck

definition authenticateForHiddenNotes ::
  "platform \<Rightarrow> localStorage \<Rightarrow> jsstring option \<Rightarrow> bool \<times> event list" where
  "authenticateForHiddenNotes plat ls password =
     (let settings = getHiddenNotesSettings ls in
      if \<not> hasPassword settings \<and> \<not> useBiometric settings then (True, [])
      else
        let biometricResult = (useBiometric settings \<and> authenticateWithBiometric plat);
            ran = (if useBiometric settings then [BiometricAttempt] else [])
        in if biometricResult then (True, ran)
           else (case orUndefined password of
                   Some p \<Rightarrow>
                     if hasPassword settings
                     then (verifyHiddenNotesPassword plat ls p, ran @ [PasswordCheck])
                     else (False, ran)
                 | None \<Rightarrow> (False, ran)))"

subsection \<open>Per-note protection\<close>

definition getNoteProtectionKey :: "jsstring \<Rightarrow> jsstring" where
  "getNoteProtectionKey noteId = js ''npd_note_protection_'' @ noteId"

definition getNotePasswordKey :: "jsstring \<Rightarrow> jsstring" where
  "getNotePasswordKey noteId = js ''npd_note_password_'' @ noteId"

definition getNoteSaltKey :: "jsstring \<Rightarrow> jsstring" where
  "getNoteSaltKey noteId = js ''npd_note_salt_'' @ noteId"

text \<open>
  \<open>JSON.stringify\<close> of a protection object with its fields in the order of the
  interface, and \<open>JSON.parse\<close> on the texts so written; \<open>None\<close> is a \<open>SyntaxError\<close>.
  The entry is written by \<open>setNoteProtection\<close> only: a text of another origin, among
  them texts that \<open>JSON.parse\<close> accepts (fields in another order, \<open>null\<close>), is not
  represented and is taken as a \<open>SyntaxError\<close>.
\<close>

definition JSON_stringify :: "NoteProtection \<Rightarrow> jsstring" where
  \<open>JSON_stringify protection =
     js ''{"hasPassword":'' @ (if hasPassword protection then js ''true'' else js ''false'') @
     js '',"useBiometric":'' @ (if useBiometric protection then js ''true'' else js ''false'') @
     js ''}''\<close>

definition JSON_parse :: "jsstring \<Rightarrow> NoteProtection option" where
  "JSON_parse data =
     (if data = JSON_stringify \<lparr>hasPassword = False, useBiometric = False\<rparr>
        then Some \<lparr>hasPassword = False, useBiometric = False\<rparr>
      else if data = JSON_stringify \<lparr>hasPassword = False, useBiometric = True\<rparr>
        then Some \<lparr>hasPassword = False, useBiometric = True\<rparr>
      else if data = JSON_stringify \<lparr>hasPassword = True, useBiometric = False\<rparr>
        then Some \<lparr>hasPassword = True, useBiometric = False\<rparr>
      else if data = JSON_stringify \<lparr>hasPassword = True, useBiometric = True\<rparr>
        then Some \<lparr>hasPassword = True, useBiometric = True\<rparr>
      else None)"

definition getNoteProtection :: "localStorage \<Rightarrow> jsstring \<Rightarrow> NoteProtection" where
  "getNoteProtection ls noteId =
     (case orUndefined (ls (getNoteProtectionKey noteId)) of
        None \<Rightarrow> \<lparr>hasPassword = False, useBiometric = False\<rparr>
      | Some data \<Rightarrow>
          (case JSON_parse data of
             Some protection \<Rightarrow> protection
           | None \<Rightarrow> \<lparr>hasPassword = False, useBiometric = False\<rparr>))"

definition setNoteProtection ::
  "platform \<Rightarrow> jsstring \<Rightarrow> NoteProtection \<Rightarrow> jsstring option \<Rightarrow> localStorage \<Rightarrow> localStorage" where
  "setNoteProtection plat noteId protection password ls =
     (let ls1 = ls(getNoteProtectionKey noteId \<mapsto> JSON_stringify protection) in
      case orUndefined password of
        Some p \<Rightarrow>
          (let (hash, salt) = hashPasswordSecure plat p None
           in ls1(getNotePasswordKey noteId \<mapsto> hash, getNoteSaltKey noteId \<mapsto> salt))
      | None \<Rightarrow>
          if \<not> hasPassword protection
          then ls1(getNotePasswordKey noteId := None, getNoteSaltKey noteId := None)
          else ls1)"

definition verifyNotePassword :: "platform \<Rightarrow> localStorage \<Rightarrow> jsstring \<Rightarrow> jsstring \<Rightarrow> bool" where
  "verifyNotePassword plat ls noteId password =
     (case orUndefined (ls (getNotePasswordKey noteId)) of
        None \<Rightarrow> False
      | Some storedHash \<Rightarrow>
          verifyPassword plat password storedHash (orUndefined (ls (getNoteSaltKey noteId))))"

definition authenticateForNote ::
  "platform \<Rightarrow> localStorage \<Rightarrow> jsstring \<Rightarrow> jsstring option \<Rightarrow> bool \<times> event list" where
  "authenticateForNote plat ls noteId password =
     (let protection = getNoteProtection ls noteId in
      if \<not> hasPassword protection \<and> \<not> useBiometric protection then (True, [])
      else
        let biometricResult = (useBiometric protection \<and> authenticateWithBiometric plat);
            ran = (if useBiometric protection then [BiometricAttempt] else [])
        in if biometricResult then (True, ran)
           else (case orUndefined password of
                   Some p \<Rightarrow>
                     if hasPassword protection
                     then (verifyNotePassword plat ls noteId p, ran @ [PasswordCheck])
                     else (False, ran)
                 | None \<Rightarrow> (False, ran)))"

definition removeNoteProtection :: "jsstring \<Rightarrow> localStorage \<Rightarrow> localStorage" where
  "removeNoteProtection noteId ls =
     ls(getNoteProtectionKey noteId := None, getNotePasswordKey noteId := None,
        getNoteSaltKey noteId := None)"

subsection \<open>Two sample platforms\<close>

text \<open>
  A browser without biometrics in which Web Crypto raises, so that hashes come from
  \<open>fallbackHash\<close>, and a native platform whose biometric check succeeds. Both return
  the same sixteen random bytes.
\<close>

definition web_platform :: platform where
  "web_platform =
     \<lparr>isNativePlatform = False, verifyIdentity = False,
      getRandomValues = (\<lambda>i. of_nat (17 * i)), deriveBits = (\<lambda>password salt. None)\<rparr>"

definition native_platform :: platform where
  "native_platform =
     \<lparr>isNativePlatform = True, verifyIdentity = True,
      getRandomValues = (\<lambda>i. of_nat (17 * i)), deriveBits = (\<lambda>password salt. Some (\<lambda>i. 0))\<rparr>"


section \<open>Properties of the record store\<close>

subsection \<open>Chunking\<close>

lemma log2floor_nonneg: "0 \<le> log2floor n"
  by (induction n rule: log2floor.induct) (subst log2floor.simps, simp)

lemma log2floor_bounds:
  "1 \<le> n \<Longrightarrow> 2 ^ nat (log2floor n) \<le> n \<and> n < 2 ^ nat (log2floor n + 1)"
proof (induction n rule: log2floor.induct)
  case (1 n)
  show ?case
  proof (cases "n < 2")
    case True
    with "1.prems" have "n = 1" by simp
    then show ?thesis by (subst (1 2) log2floor.simps) simp
  next
    case False
    then have h: "1 \<le> n div 2" by simp
    from "1.IH" [OF False h] have IH: "2 ^ nat (log2floor (n div 2)) \<le> n div 2"
      "n div 2 < 2 ^ nat (log2floor (n div 2) + 1)" by simp_all
    have eq: "log2floor n = log2floor (n div 2) + 1"
      using False by (subst log2floor.simps) simp
    have nn: "0 \<le> log2floor (n div 2)" by (rule log2floor_nonneg)
    have p1: "(2::int) ^ nat (log2floor (n div 2) + 1) = 2 * 2 ^ nat (log2floor (n div 2))"
      using nn by (simp add: nat_add_distrib)
    have p2: "(2::int) ^ nat (log2floor (n div 2) + 1 + 1) = 2 * 2 ^ nat (log2floor (n div 2) + 1)"
      using nn by (simp add: nat_add_distrib)
    show ?thesis unfolding eq p2 unfolding p1 using IH p1 by linarith
  qed
qed


lemma log2floor_powi:
  assumes "1 \<le> n"
  shows "(2::rat) powi (log2floor n) \<le> of_int n" "(of_int n :: rat) < 2 powi (log2floor n + 1)"
proof -
  from log2floor_bounds [OF assms]
  have b: "2 ^ nat (log2floor n) \<le> n" "n < 2 ^ nat (log2floor n + 1)" by simp_all
  have nn: "0 \<le> log2floor n" by (rule log2floor_nonneg)
  have "(of_int (2 ^ nat (log2floor n)) :: rat) \<le> of_int n" using b(1) by (simp only: of_int_le_iff)
  then show "(2::rat) powi (log2floor n) \<le> of_int n"
    using nn by (simp add: power_int_nonneg_exp)
  have "(of_int n :: rat) < of_int (2 ^ nat (log2floor n + 1))" using b(2) by (simp only: of_int_less_iff)
  then show "(of_int n :: rat) < 2 powi (log2floor n + 1)"
    using nn by (simp add: power_int_nonneg_exp)
qed

lemma binade_bounds:
  assumes "q \<noteq> 0"
  shows "2 powi (binade q) \<le> \<bar>q\<bar> \<and> \<bar>q\<bar> < 2 powi (binade q + 1)"
proof -
  obtain a b where ab: "quotient_of q = (a, b)" by (cases "quotient_of q")
  then have b: "0 < b" and q: "q = of_int a / of_int b"
    using quotient_of_denom_pos quotient_of_div by blast+
  from assms q have a: "1 \<le> \<bar>a\<bar>" by auto
  from b have b1: "1 \<le> b" by simp
  let ?la = "log2floor \<bar>a\<bar>" and ?lb = "log2floor b"
  let ?d = "?la - ?lb"
  note A = log2floor_powi [OF a] and B = log2floor_powi [OF b1]
  have absq: "\<bar>q\<bar> = of_int \<bar>a\<bar> / of_int b" using q b by simp
  have Bpos: "(0::rat) < of_int b" using b by simp
  have up: "\<bar>q\<bar> < 2 powi (?d + 1)"
  proof -
    have "(0::rat) < 2 powi ?lb" by simp
    then have "\<bar>q\<bar> < 2 powi (?la + 1) / 2 powi ?lb"
      unfolding absq using A(2) B(1) by (intro frac_less) simp_all
    also have "\<dots> = 2 powi (?la + 1 - ?lb)"
      by (simp add: power_int_diff)
    also have "?la + 1 - ?lb = ?d + 1" by simp
    finally show ?thesis .
  qed
  have low: "2 powi (?d - 1) < \<bar>q\<bar>"
  proof -
    have "(0::rat) < 2 powi ?la" by simp
    then have "2 powi ?la / 2 powi (?lb + 1) < \<bar>q\<bar>"
      unfolding absq using A(1) B(2) Bpos by (intro frac_less2) simp_all
    moreover have "2 powi ?la / 2 powi (?lb + 1) = (2::rat) powi (?la - (?lb + 1))"
      by (simp add: power_int_diff)
    moreover have "?la - (?lb + 1) = ?d - 1" by simp
    ultimately show ?thesis by simp
  qed
  have bin: "binade q = (if 2 powi ?d \<le> \<bar>q\<bar> then ?d else ?d - 1)"
    by (simp add: binade_def ab Let_def)
  show ?thesis
  proof (cases "2 powi ?d \<le> \<bar>q\<bar>")
    case True
    with up bin show ?thesis by simp
  next
    case False
    with low bin show ?thesis by simp
  qed
qed


lemma pow2_le_D: "(2::rat) powi a \<le> 2 powi b \<Longrightarrow> a \<le> b"
  using power_int_strict_increasing [of b a "2::rat"] by (cases "a \<le> b") auto

lemma pow2_less_D: "(2::rat) powi a < 2 powi b \<Longrightarrow> a < b"
  using power_int_increasing [of b a "2::rat"] by (cases "a < b") auto

lemma roundTiesToEven_of_int [simp]: "roundTiesToEven (of_int n) = n"
  by (simp add: roundTiesToEven_def)

lemma roundTiesToEven_ge: "of_int m \<le> x \<Longrightarrow> m \<le> roundTiesToEven x"
proof -
  assume "of_int m \<le> x"
  then have "m \<le> \<lfloor>x\<rfloor>" by (simp add: le_floor_iff)
  then show ?thesis by (simp add: roundTiesToEven_def Let_def)
qed

lemma roundTiesToEven_nonpos: "x \<le> 0 \<Longrightarrow> roundTiesToEven x \<le> 0"
proof -
  assume x: "x \<le> 0"
  show ?thesis
  proof (cases "x = of_int \<lfloor>x\<rfloor>")
    case True
    then have "roundTiesToEven x = \<lfloor>x\<rfloor>"
      using roundTiesToEven_of_int [of "\<lfloor>x\<rfloor>"] by simp
    with x show ?thesis by (simp add: floor_le_zero)
  next
    case False
    have "of_int \<lfloor>x\<rfloor> \<le> x" by (rule of_int_floor_le)
    from this False [symmetric] have "of_int \<lfloor>x\<rfloor> < x" by (rule le_neq_trans)
    from this x have "(of_int \<lfloor>x\<rfloor> :: rat) < 0" by (rule less_le_trans)
    then have "\<lfloor>x\<rfloor> < 0" by simp
    then show ?thesis by (simp add: roundTiesToEven_def Let_def)
  qed
qed

lemma round64_exact:
  assumes "\<bar>n\<bar> \<le> 2 ^ 53"
  shows "round64 (of_int n) = Finite (of_int n)"
proof (cases "n = 0")
  case True
  then show ?thesis by (simp add: round64_def)
next
  case False
  let ?q = "of_int n :: rat"
  let ?e = "binade ?q"
  have q0: "?q \<noteq> 0" using False by simp
  from binade_bounds [OF q0] have lo: "2 powi ?e \<le> \<bar>?q\<bar>" and hi: "\<bar>?q\<bar> < 2 powi (?e + 1)"
    by simp_all
  have q53: "\<bar>?q\<bar> \<le> 2 powi 53"
  proof -
    have "(of_int \<bar>n\<bar> :: rat) \<le> of_int (2 ^ 53)" using assms by (simp only: of_int_le_iff)
    then show ?thesis by simp
  qed
  with lo have "(2::rat) powi ?e \<le> 2 powi 53" by (rule order_trans)
  then have e53: "?e \<le> 53" by (rule pow2_le_D)
  have "1 \<le> \<bar>n\<bar>" using False by simp
  then have "(of_int 1 :: rat) \<le> of_int \<bar>n\<bar>" by (simp only: of_int_le_iff)
  then have "(2::rat) powi 0 \<le> \<bar>?q\<bar>" by simp
  from this hi have "(2::rat) powi 0 < 2 powi (?e + 1)" by (rule order_le_less_trans)
  then have "0 < ?e + 1" by (rule pow2_less_D)
  then have e0: "0 \<le> ?e" by simp
  let ?u = "(2::rat) powi (max ?e (- 1022) - 52)"
  have m: "max ?e (- 1022) = ?e" using e0 by simp
  have "\<exists>k. ?q / ?u = of_int k"
  proof (cases "?e \<le> 52")
    case True
    have "?q / ?u = ?q * 2 powi (52 - ?e)"
      unfolding m by (simp add: power_int_diff field_simps)
    also have "\<dots> = ?q * 2 ^ nat (52 - ?e)" using True by (simp add: power_int_nonneg_exp)
    also have "\<dots> = of_int (n * 2 ^ nat (52 - ?e))" by simp
    finally show ?thesis by blast
  next
    case False
    with e53 have e: "?e = 53" by simp
    from lo q53 have "\<bar>?q\<bar> = 2 powi 53" unfolding e by (rule order_antisym [rotated])
    then have "(of_int \<bar>n\<bar> :: rat) = of_int (2 ^ 53)" by simp
    then have "\<bar>n\<bar> = 2 ^ 53" by (simp only: of_int_eq_iff)
    then have "\<bar>n\<bar> = 9007199254740992" by simp
    then have "n = 9007199254740992 \<or> n = - 9007199254740992" by linarith
    then have "n = 2 * (n div 2)" by auto
    then have "?q = of_int (n div 2) * 2" by (metis of_int_mult of_int_numeral mult.commute)
    moreover have "?u = 2" unfolding m e by simp
    ultimately have "?q / ?u = of_int (n div 2)" by simp
    then show ?thesis by blast
  qed
  then obtain k where k: "?q / ?u = of_int k" by blast
  have upos: "?u \<noteq> 0" by simp
  have r: "of_int (roundTiesToEven (?q / ?u)) * ?u = ?q"
    unfolding k roundTiesToEven_of_int using k upos by (metis nonzero_eq_divide_eq)
  have "(2::rat) powi 53 < 2 powi 1024" by (rule power_int_strict_increasing) simp_all
  with q53 have "\<bar>?q\<bar> < 2 powi 1024" by (rule order_le_less_trans)
  then show ?thesis
    using q0 r by (simp add: round64_def Let_def)
qed

lemma round64_large:
  assumes "2 ^ 53 \<le> q"
  shows "round64 q = PosInf \<or> (\<exists>r. round64 q = Finite r \<and> 2 ^ 53 \<le> r)"
proof -
  have qpos: "0 < q" using assms by (smt (verit) zero_less_power zero_less_numeral order_less_le_trans)
  then have q0: "q \<noteq> 0" by simp
  let ?e = "binade q"
  from binade_bounds [OF q0] qpos have lo: "2 powi ?e \<le> q" and hi: "q < 2 powi (?e + 1)"
    by simp_all
  from assms have "(2::rat) powi 53 \<le> q" by simp
  from this hi have "(2::rat) powi 53 < 2 powi (?e + 1)" by (rule order_le_less_trans)
  then have "53 < ?e + 1" by (rule pow2_less_D)
  then have e: "53 \<le> ?e" by simp
  let ?u = "(2::rat) powi (max ?e (- 1022) - 52)"
  have m: "max ?e (- 1022) = ?e" using e by simp
  have upos: "0 < ?u" by simp
  have "?u * of_int (2 ^ 52) = 2 powi ?e"
    unfolding m by (simp add: power_int_diff)
  then have "of_int (2 ^ 52) \<le> q / ?u"
    using lo upos by (simp add: pos_le_divide_eq mult.commute)
  then have "2 ^ 52 \<le> roundTiesToEven (q / ?u)" by (rule roundTiesToEven_ge)
  then have "(of_int (2 ^ 52) :: rat) \<le> of_int (roundTiesToEven (q / ?u))" by (simp only: of_int_le_iff)
  then have "of_int (2 ^ 52) * ?u \<le> of_int (roundTiesToEven (q / ?u)) * ?u"
    using upos by (simp only: mult_le_cancel_right_pos)
  moreover have "(2::rat) ^ 53 \<le> of_int (2 ^ 52) * ?u"
  proof -
    have "of_int (2 ^ 52) * ?u = 2 powi ?e"
      unfolding m by (simp add: power_int_diff)
    moreover have "(2::rat) powi 53 \<le> 2 powi ?e" using e by (intro power_int_increasing) simp_all
    ultimately show ?thesis by simp
  qed
  ultimately have "2 ^ 53 \<le> of_int (roundTiesToEven (q / ?u)) * ?u" by linarith
  then show ?thesis
    using qpos q0 by (simp add: round64_def Let_def)
qed

lemma round64_nonpos:
  assumes "q \<le> 0"
  shows "round64 q = NegInf \<or> (\<exists>r. round64 q = Finite r \<and> r \<le> 0)"
proof (cases "q = 0")
  case True
  then show ?thesis by (simp add: round64_def)
next
  case False
  let ?u = "(2::rat) powi (max (binade q) (- 1022) - 52)"
  have upos: "0 < ?u" by simp
  then have "q / ?u \<le> 0" using assms by (simp add: divide_nonpos_pos)
  then have "roundTiesToEven (q / ?u) \<le> 0" by (rule roundTiesToEven_nonpos)
  then have "(of_int (roundTiesToEven (q / ?u)) :: rat) \<le> 0" by simp
  then have "of_int (roundTiesToEven (q / ?u)) * ?u \<le> 0"
    using upos by (simp add: mult_le_0_iff)
  then show ?thesis
    using False assms by (simp add: round64_def Let_def)
qed

lemma truncate_rat_of_int [simp]: "truncate_rat (of_int i) = i"
  by (simp add: truncate_rat_def)

lemma relativeIndex_int:
  "0 \<le> i \<Longrightarrow> relativeIndex (Finite (of_int i)) len = min i len"
  by (simp add: Let_def)

lemma relativeIndex_beyond:
  assumes "0 \<le> len" and "x = PosInf \<or> (\<exists>r. x = Finite r \<and> of_int len \<le> r)"
  shows "relativeIndex x len = len"
proof -
  { fix r :: rat assume r: "of_int len \<le> r"
    then have "len \<le> \<lfloor>r\<rfloor>" by (simp add: le_floor_iff)
    moreover from r assms(1) have "0 \<le> r" by (smt (verit) of_int_0_le_iff order_trans)
    ultimately have "relativeIndex (Finite r) len = len"
      using assms(1) by (simp add: truncate_rat_def Let_def) }
  with assms(2) show ?thesis by auto
qed

lemma number_less_beyond:
  assumes "x = PosInf \<or> (\<exists>r. x = Finite r \<and> of_int len \<le> r)"
  shows "\<not> number_less x (Finite (of_int len))"
  using assms by auto

lemma add_int_small:
  assumes "0 \<le> i" "0 < n" "i + n \<le> 2 ^ 53"
  shows "number_add (Finite (of_int i)) (Finite (of_int n)) = Finite (of_int (i + n))"
proof -
  have "\<bar>i + n\<bar> \<le> 2 ^ 53" using assms by simp
  from round64_exact [OF this] show ?thesis by simp
qed

lemma add_int_large:
  assumes "2 ^ 53 < i + n"
  shows "number_add (Finite (of_int i)) (Finite (of_int n)) = PosInf \<or>
    (\<exists>r. number_add (Finite (of_int i)) (Finite (of_int n)) = Finite r \<and> 2 ^ 53 \<le> r)"
proof -
  have "2 ^ 53 \<le> i + n" using assms by simp
  then have "(of_int (2 ^ 53) :: rat) \<le> of_int (i + n)" by (simp only: of_int_le_iff)
  then have "(2 :: rat) ^ 53 \<le> of_int i + of_int n" by simp
  from round64_large [OF this] show ?thesis by simp
qed

lemma splitLoop_integral:
  assumes n: "0 < n" and len: "int (length c) \<le> 2 ^ 53"
  shows "0 \<le> i \<Longrightarrow>
    \<exists>cs. splitLoop c (Finite (of_int n)) (Finite (of_int i)) acc = Some (acc @ cs) \<and>
         concat cs = drop (nat i) c \<and>
         (\<forall>x \<in> set (butlast cs). int (length x) = n) \<and>
         (cs \<noteq> [] \<longrightarrow> 1 \<le> length (last cs) \<and> int (length (last cs)) \<le> n)"
proof (induction "nat (int (length c) - i)" arbitrary: i acc rule: less_induct)
  case less
  note number_add.simps [simp del]
  let ?L = "int (length c)"
  let ?k = "Finite (of_int n)"
  let ?next = "number_add (Finite (of_int i)) ?k"
  let ?chunk = "slice c (Finite (of_int i)) ?next"
  have L: "Finite (of_nat (length c)) = Finite (of_int ?L)" by simp
  show ?case
  proof (cases "i < ?L")
    case False
    then have "\<not> number_less (Finite (of_int i)) (Finite (of_nat (length c)))"
      unfolding L by simp
    then show ?thesis
      by (subst splitLoop.simps) (use less.prems False in simp)
  next
    case True
    then have enter: "number_less (Finite (of_int i)) (Finite (of_nat (length c)))"
      unfolding L by simp
    have step: "splitLoop c ?k (Finite (of_int i)) acc = splitLoop c ?k ?next (acc @ [?chunk])"
      by (subst splitLoop.simps) (simp only: enter if_True)
    show ?thesis
    proof (cases "i + n \<le> 2 ^ 53")
      case small: True
      have nxt: "?next = Finite (of_int (i + n))"
        using less.prems n small by (rule add_int_small)
      have ri1: "relativeIndex (Finite (of_int i)) ?L = i"
        using relativeIndex_int [of i ?L] less.prems True by simp
      have ri2: "relativeIndex (Finite (of_int (i + n))) ?L = min (i + n) ?L"
        using less.prems n by (intro relativeIndex_int) simp
      have "?chunk = take (nat (min (i + n) ?L - i)) (drop (nat i) c)"
        unfolding nxt slice_def Let_def ri1 ri2 ..
      also have "\<dots> = take (nat n) (drop (nat i) c)"
        using less.prems True n by (simp add: min_def take_all)
      finally have chunk: "?chunk = take (nat n) (drop (nat i) c)" .
      have "nat (?L - (i + n)) < nat (?L - i)" using True n by linarith
      moreover have "0 \<le> i + n" using less.prems n by simp
      ultimately obtain cs where cs:
        "splitLoop c ?k (Finite (of_int (i + n))) (acc @ [?chunk]) = Some ((acc @ [?chunk]) @ cs)"
        "concat cs = drop (nat (i + n)) c"
        "\<forall>x \<in> set (butlast cs). int (length x) = n"
        "cs \<noteq> [] \<longrightarrow> 1 \<le> length (last cs) \<and> int (length (last cs)) \<le> n"
        using less.hyps [of "i + n" "acc @ [?chunk]"] by blast
      have res: "splitLoop c ?k (Finite (of_int i)) acc = Some (acc @ (?chunk # cs))"
        unfolding step using cs(1) by (simp add: nxt)
      have cat: "concat (?chunk # cs) = drop (nat i) c"
      proof -
        have "nat (i + n) = nat n + nat i" using less.prems n by linarith
        then have "drop (nat (i + n)) c = drop (nat n) (drop (nat i) c)" by simp
        then have "concat (?chunk # cs) =
            take (nat n) (drop (nat i) c) @ drop (nat n) (drop (nat i) c)"
          using cs(2) chunk by simp
        then show ?thesis by (simp only: append_take_drop_id)
      qed
      have len_chunk: "1 \<le> length ?chunk" "int (length ?chunk) \<le> n"
        using True less.prems n by (auto simp: chunk)
      have full: "cs \<noteq> [] \<Longrightarrow> int (length ?chunk) = n"
      proof -
        assume ne: "cs \<noteq> []"
        have "last cs \<in> set cs" "last cs \<noteq> []" using ne cs(4) by auto
        then have "concat cs \<noteq> []" by auto
        then have "nat (i + n) < length c" using cs(2) by simp
        then show ?thesis using less.prems n by (auto simp: chunk min_def)
      qed
      show ?thesis
        apply (rule exI [of _ "?chunk # cs"])
        using res cat cs(3,4) len_chunk full by auto
    next
      case large: False
      then have "2 ^ 53 < i + n" by simp
      from add_int_large [OF this]
      have "?next = PosInf \<or> (\<exists>r. ?next = Finite r \<and> 2 ^ 53 \<le> r)" .
      moreover have "(of_int ?L :: rat) \<le> 2 ^ 53"
      proof -
        have "(of_int ?L :: rat) \<le> of_int (2 ^ 53)" using len by (simp only: of_int_le_iff)
        then show ?thesis by simp
      qed
      ultimately have beyond: "?next = PosInf \<or> (\<exists>r. ?next = Finite r \<and> of_int ?L \<le> r)"
        by (auto intro: order_trans)
      have stop: "\<not> number_less ?next (Finite (of_nat (length c)))"
        unfolding L using beyond by (rule number_less_beyond)
      have "relativeIndex ?next ?L = ?L"
        using _ beyond by (rule relativeIndex_beyond) simp
      moreover have "relativeIndex (Finite (of_int i)) ?L = i"
        using relativeIndex_int [of i ?L] less.prems True by simp
      ultimately have "?chunk = take (nat (?L - i)) (drop (nat i) c)"
        unfolding slice_def Let_def by simp
      then have chunk: "?chunk = drop (nat i) c"
        using less.prems True by (simp add: take_all)
      have res: "splitLoop c ?k (Finite (of_int i)) acc = Some (acc @ [?chunk])"
        unfolding step by (subst splitLoop.simps) (simp only: stop if_False)
      have "1 \<le> length ?chunk" "int (length ?chunk) \<le> n"
        using True less.prems large len by (auto simp: chunk)
      then show ?thesis
        apply (intro exI [of _ "[?chunk]"])
        using res chunk by simp
    qed
  qed
qed

lemma add_nonpositive:
  "nonpositive k \<Longrightarrow> nonpositive start \<Longrightarrow> nonpositive (number_add start k)"
proof (cases k; cases start)
  fix q r assume kq: "k = Finite q" and sr: "start = Finite r"
  assume "nonpositive k" "nonpositive start"
  with kq sr have "r + q \<le> 0" by simp
  from round64_nonpos [OF this] show "nonpositive (number_add start k)"
    using kq sr by auto
qed simp_all

lemma number_less_nonpositive:
  "nonpositive start \<Longrightarrow> c \<noteq> [] \<Longrightarrow> number_less start (Finite (of_nat (length c)))"
  by (cases start) (auto intro: order_le_less_trans)

lemma splitLoop_stuck:
  assumes "splitLoop c k start acc = Some r"
  shows "\<not> (c \<noteq> [] \<and> nonpositive k \<and> nonpositive start)"
proof (rule splitLoop.raw_induct
    [where P = "\<lambda>c k start acc r. \<not> (c \<noteq> [] \<and> nonpositive k \<and> nonpositive start)", OF _ assms])
  fix f :: "jsstring \<Rightarrow> number \<Rightarrow> number \<Rightarrow> jsstring list \<Rightarrow> jsstring list option"
  fix c k start acc r
  assume IH: "\<And>c k start acc r. f c k start acc = Some r \<Longrightarrow>
      \<not> (c \<noteq> [] \<and> nonpositive k \<and> nonpositive start)"
    and body: "(if number_less start (Finite (of_nat (length c)))
                then f c k (number_add start k) (acc @ [slice c start (number_add start k)])
                else Some acc) = Some r"
  show "\<not> (c \<noteq> [] \<and> nonpositive k \<and> nonpositive start)"
  proof
    assume a: "c \<noteq> [] \<and> nonpositive k \<and> nonpositive start"
    then have "number_less start (Finite (of_nat (length c)))" by (simp add: number_less_nonpositive)
    with body have "f c k (number_add start k) (acc @ [slice c start (number_add start k)]) = Some r" by simp
    from IH [OF this] a show False by (simp add: add_nonpositive)
  qed
qed

lemma splitLargeContent_NaN: "c \<noteq> [] \<Longrightarrow> splitLargeContent c NaN = Some [[]]"
  unfolding splitLargeContent_def
  by (subst splitLoop.simps, simp, subst splitLoop.simps, simp add: slice_def truncate_rat_def Let_def)

lemma splitLargeContent_PosInf: "c \<noteq> [] \<Longrightarrow> splitLargeContent c PosInf = Some [c]"
  unfolding splitLargeContent_def
  by (subst splitLoop.simps, simp, subst splitLoop.simps, simp add: slice_def truncate_rat_def Let_def)

lemma splitLargeContent_Nil: "splitLargeContent [] k = Some []"
  unfolding splitLargeContent_def by (subst splitLoop.simps) simp

lemma round64_numeral [simp]:
  "numeral w \<le> (2::int) ^ 53 \<Longrightarrow> round64 (numeral w) = Finite (numeral w)"
  using round64_exact [of "numeral w"] by simp

lemma round64_half_5: "round64 (5 / 2) = Finite (5 / 2)"
  by code_simp

lemma round64_half_15: "round64 (15 / 2) = Finite (15 / 2)"
  by code_simp

lemma floor_halves: "\<lfloor>5 / 2 :: rat\<rfloor> = 2" "\<lfloor>15 / 2 :: rat\<rfloor> = 7"
  by (simp_all add: floor_eq_iff)

lemma round64_ge_int:
  assumes x: "of_int m \<le> x" and m1: "1 \<le> m" and m53: "m \<le> 2 ^ 53"
  shows "round64 x = PosInf \<or> (\<exists>r. round64 x = Finite r \<and> of_int m \<le> r)"
proof (cases "2 ^ 53 \<le> x")
  case True
  have "(of_int m :: rat) \<le> of_int (2 ^ 53)" using m53 by (simp only: of_int_le_iff)
  then have "(of_int m :: rat) \<le> 2 ^ 53" by simp
  with round64_large [OF True] show ?thesis by (auto intro: order_trans)
next
  case False
  then have x53: "x < 2 powi 53" by simp
  have "(of_int 1 :: rat) \<le> of_int m" using m1 by (simp only: of_int_le_iff)
  then have one: "(1::rat) \<le> of_int m" by simp
  from one x have x1: "1 \<le> x" by (rule order_trans)
  then have xpos: "0 < x" by simp
  then have x0: "x \<noteq> 0" by simp
  let ?e = "binade x"
  from binade_bounds [OF x0] xpos have lo: "2 powi ?e \<le> x" and hi: "x < 2 powi (?e + 1)"
    by simp_all
  from lo x53 have "(2::rat) powi ?e < 2 powi 53" by (rule order_le_less_trans)
  then have e53: "?e < 53" by (rule pow2_less_D)
  from x1 have "(2::rat) powi 0 \<le> x" by simp
  from this hi have "(2::rat) powi 0 < 2 powi (?e + 1)" by (rule order_le_less_trans)
  then have "0 < ?e + 1" by (rule pow2_less_D)
  then have e0: "0 \<le> ?e" by simp
  let ?u = "(2::rat) powi (max ?e (- 1022) - 52)"
  have mx: "max ?e (- 1022) = ?e" using e0 by simp
  have upos: "0 < ?u" by simp
  have "of_int m / ?u = of_int m * 2 powi (52 - ?e)"
    unfolding mx by (simp add: power_int_diff field_simps)
  also have "\<dots> = of_int m * 2 ^ nat (52 - ?e)" using e53 by (simp add: power_int_nonneg_exp)
  also have "\<dots> = of_int (m * 2 ^ nat (52 - ?e))" by simp
  finally have mu: "of_int m / ?u = of_int (m * 2 ^ nat (52 - ?e))" .
  have "of_int m / ?u \<le> x / ?u" by (rule divide_right_mono [OF x]) simp
  then have "of_int (m * 2 ^ nat (52 - ?e)) \<le> x / ?u" unfolding mu .
  then have "m * 2 ^ nat (52 - ?e) \<le> roundTiesToEven (x / ?u)" by (rule roundTiesToEven_ge)
  then have "(of_int (m * 2 ^ nat (52 - ?e)) :: rat) \<le> of_int (roundTiesToEven (x / ?u))"
    by (simp only: of_int_le_iff)
  then have A: "of_int (m * 2 ^ nat (52 - ?e)) * ?u \<le> of_int (roundTiesToEven (x / ?u)) * ?u"
    using upos by (simp only: mult_le_cancel_right_pos)
  have B: "of_int (m * 2 ^ nat (52 - ?e)) * ?u = of_int m"
    unfolding mu [symmetric] using upos by simp
  have "of_int m \<le> of_int (roundTiesToEven (x / ?u)) * ?u" using A unfolding B .
  then show ?thesis
    using xpos x0 by (simp add: round64_def Let_def)
qed

lemma relativeIndex_nonneg:
  "0 \<le> s \<Longrightarrow> relativeIndex (Finite s) len = min \<lfloor>s\<rfloor> len"
  by (simp add: truncate_rat_def Let_def)

lemma splitLoop_ge_one:
  assumes q: "1 \<le> q" and len: "int (length c) \<le> 2 ^ 53"
  shows "0 \<le> s \<Longrightarrow>
    \<exists>cs. splitLoop c (Finite q) (Finite s) acc = Some (acc @ cs) \<and>
         concat cs = drop (nat \<lfloor>s\<rfloor>) c \<and> (\<forall>x \<in> set cs. x \<noteq> [])"
proof (induction "nat (int (length c) - \<lfloor>s\<rfloor>)" arbitrary: s acc rule: less_induct)
  case less
  note number_add.simps [simp del]
  let ?L = "int (length c)"
  let ?k = "Finite q"
  let ?f = "\<lfloor>s\<rfloor>"
  let ?next = "number_add (Finite s) ?k"
  let ?chunk = "slice c (Finite s) ?next"
  have L: "Finite (of_nat (length c)) = Finite (of_int ?L)" by simp
  have f0: "0 \<le> ?f" using less.prems by simp
  show ?case
  proof (cases "s < of_int ?L")
    case False
    then have "of_int ?L \<le> s" by simp
    then have "?L \<le> ?f" by (simp add: le_floor_iff)
    then have "drop (nat ?f) c = []" by simp
    moreover have "\<not> number_less (Finite s) (Finite (of_nat (length c)))"
      unfolding L using False by simp
    ultimately show ?thesis
      by (subst splitLoop.simps) simp
  next
    case True
    then have fL: "?f < ?L" by (simp add: floor_less_iff)
    have fl: "nat ?f < length c" using fL f0 by linarith
    have enter: "number_less (Finite s) (Finite (of_nat (length c)))"
      unfolding L using True by simp
    have step: "splitLoop c ?k (Finite s) acc = splitLoop c ?k ?next (acc @ [?chunk])"
      by (subst splitLoop.simps) (simp only: enter if_True)
    have lo_ix: "relativeIndex (Finite s) ?L = ?f"
      using relativeIndex_nonneg [OF less.prems, of ?L] fL by simp
    have "of_int ?f + 1 \<le> s + q" using q of_int_floor_le [of s] by linarith
    then have "of_int (?f + 1) \<le> s + q" by simp
    moreover have "1 \<le> ?f + 1" using f0 by simp
    moreover have "?f + 1 \<le> 2 ^ 53" using fL len by linarith
    ultimately have "round64 (s + q) = PosInf \<or>
        (\<exists>r. round64 (s + q) = Finite r \<and> of_int (?f + 1) \<le> r)"
      by (rule round64_ge_int)
    then have nx: "?next = PosInf \<or> (\<exists>r. ?next = Finite r \<and> of_int (?f + 1) \<le> r)"
      by (simp add: number_add.simps)
    then show ?thesis
    proof
      assume inf: "?next = PosInf"
      have "relativeIndex ?next ?L = ?L" unfolding inf by simp
      with lo_ix have "?chunk = take (nat (?L - ?f)) (drop (nat ?f) c)"
        unfolding slice_def Let_def by simp
      then have chunk: "?chunk = drop (nat ?f) c" by (simp add: take_all)
      have ne: "?chunk \<noteq> []" unfolding chunk using fl by simp
      have "splitLoop c ?k ?next (acc @ [?chunk]) = Some (acc @ [?chunk])"
        unfolding inf by (subst splitLoop.simps) simp
      with step have "splitLoop c ?k (Finite s) acc = Some (acc @ [?chunk])" by simp
      with chunk ne show ?thesis by (intro exI [of _ "[?chunk]"]) simp
    next
      assume "\<exists>r. ?next = Finite r \<and> of_int (?f + 1) \<le> r"
      then obtain r where r: "?next = Finite r" "of_int (?f + 1) \<le> r" by blast
      from r(2) have fr: "?f + 1 \<le> \<lfloor>r\<rfloor>" by (simp only: le_floor_iff)
      have "(0::rat) \<le> of_int (?f + 1)" using f0 by simp
      with r(2) have r0: "0 \<le> r" by linarith
      have hi_ix: "relativeIndex (Finite r) ?L = min \<lfloor>r\<rfloor> ?L"
        using r0 by (rule relativeIndex_nonneg)
      have chunk: "?chunk = take (nat (min \<lfloor>r\<rfloor> ?L - ?f)) (drop (nat ?f) c)"
        unfolding r(1) slice_def Let_def lo_ix hi_ix ..
      have "?f < min \<lfloor>r\<rfloor> ?L" using fL fr by linarith
      then have ne: "?chunk \<noteq> []" unfolding chunk using fl by (simp add: not_le)
      have "nat (?L - \<lfloor>r\<rfloor>) < nat (?L - ?f)" using fL fr by linarith
      then obtain cs where cs:
        "splitLoop c ?k (Finite r) (acc @ [?chunk]) = Some ((acc @ [?chunk]) @ cs)"
        "concat cs = drop (nat \<lfloor>r\<rfloor>) c" "\<forall>x \<in> set cs. x \<noteq> []"
        using less.hyps [of r "acc @ [?chunk]"] r0 by blast
      have res: "splitLoop c ?k (Finite s) acc = Some (acc @ (?chunk # cs))"
        unfolding step using cs(1) by (simp add: r(1))
      have cat: "concat (?chunk # cs) = drop (nat ?f) c"
      proof (cases "\<lfloor>r\<rfloor> \<le> ?L")
        case True
        have "nat \<lfloor>r\<rfloor> = nat (\<lfloor>r\<rfloor> - ?f) + nat ?f" using f0 fr by linarith
        then have "drop (nat \<lfloor>r\<rfloor>) c = drop (nat (\<lfloor>r\<rfloor> - ?f)) (drop (nat ?f) c)" by simp
        moreover have "?chunk = take (nat (\<lfloor>r\<rfloor> - ?f)) (drop (nat ?f) c)"
          unfolding chunk using True by (simp add: min_def)
        ultimately have "concat (?chunk # cs) =
            take (nat (\<lfloor>r\<rfloor> - ?f)) (drop (nat ?f) c) @ drop (nat (\<lfloor>r\<rfloor> - ?f)) (drop (nat ?f) c)"
          using cs(2) by simp
        then show ?thesis by (simp only: append_take_drop_id)
      next
        case False
        then have "drop (nat \<lfloor>r\<rfloor>) c = []" by simp
        moreover have "?chunk = drop (nat ?f) c"
          unfolding chunk using False by (simp add: min_def take_all)
        ultimately show ?thesis using cs(2) by simp
      qed
      show ?thesis
        apply (rule exI [of _ "?chunk # cs"])
        using res cat cs(3) ne by simp
    qed
  qed
qed

lemma add_progress:
  assumes "0 \<le> s" and "s < 2 ^ 53" and "1 \<le> q"
  shows "number_less (Finite s) (number_add (Finite s) (Finite q))"
proof -
  let ?f = "\<lfloor>s\<rfloor>"
  have f0: "0 \<le> ?f" using assms(1) by simp
  have "s < of_int (2 ^ 53)" using assms(2) by simp
  then have "?f < 2 ^ 53" by (simp only: floor_less_iff)
  then have f53: "?f + 1 \<le> 2 ^ 53" by simp
  have "of_int ?f + 1 \<le> s + q" using assms(3) of_int_floor_le [of s] by linarith
  then have "of_int (?f + 1) \<le> s + q" by simp
  moreover have "1 \<le> ?f + 1" using f0 by simp
  ultimately have "round64 (s + q) = PosInf \<or>
      (\<exists>r. round64 (s + q) = Finite r \<and> of_int (?f + 1) \<le> r)"
    using f53 by (rule round64_ge_int)
  moreover have "s < of_int (?f + 1)" using floor_correct [of s] by simp
  ultimately show ?thesis by (auto intro: less_le_trans)
qed

lemma split_abcdefg_half:
  "splitLargeContent (js ''abcdefg'') (Finite (5 / 2)) = Some [js ''ab'', js ''cde'', js ''fg'']"
  unfolding splitLargeContent_def
  by ((subst splitLoop.simps,
      simp add: round64_half_5 round64_half_15 floor_halves slice_def truncate_rat_def Let_def js_def)+)

lemma split_abcdefg_3:
  "splitLargeContent (js ''abcdefg'') (Finite (of_int 3)) = Some [js ''abc'', js ''def'', js ''g'']"
  unfolding splitLargeContent_def
  by ((subst splitLoop.simps, simp add: slice_def truncate_rat_def Let_def js_def)+)

lemma length_le_concat:
  "\<forall>x \<in> set xs. x \<noteq> [] \<Longrightarrow> length xs \<le> length (concat xs)"
proof (induction xs)
  case (Cons x xs)
  then have "1 \<le> length x" by (cases x) simp_all
  with Cons show ?case by simp
qed simp

text \<open>
  Claim C9, as stated: for every chunk size \<open>k > 0\<close> every chunk except the last has
  length exactly \<open>k\<close>. It fails for a size that is not integral: \<open>slice\<close> truncates
  its arguments, and with \<open>k = 2.5\<close> the chunks of \<open>abcdefg\<close> are \<open>ab\<close>, \<open>cde\<close> and
  \<open>fg\<close>, of lengths 2, 3 and 2.
\<close>

theorem splitLargeContent_fractional_counterexample:
  "splitLargeContent (js ''abcdefg'') (Finite (5 / 2)) = Some [js ''ab'', js ''cde'', js ''fg''] \<and>
   number_less (Finite 0) (Finite (5 / 2)) \<and>
   map length [js ''ab'', js ''cde'', js ''fg''] = [2, 3, 2] \<and>
   Finite (of_nat (length (js ''ab''))) \<noteq> Finite (5 / 2)"
  using split_abcdefg_half by (simp add: js_def)

text \<open>
  Claim C9, amended. Let the content have at most \<open>2\<^sup>5\<^sup>3\<close> code units, as every
  JavaScript string has. For every integral chunk size \<open>k > 0\<close>, \<open>splitLargeContent\<close>
  returns, the concatenation of the returned chunks in order is the content, every chunk
  except the last has length exactly \<open>k\<close>, and the last chunk has length between 1 and
  \<open>k\<close>. For every finite chunk size \<open>k \<ge> 1\<close>, integral or not, it returns, the
  concatenation of the chunks is the content, no chunk is empty and there are no more
  chunks than code units.
\<close>

theorem splitLargeContent_concat_and_sizes:
  assumes "int (length c) \<le> 2 ^ 53"
  shows "(0 < n \<longrightarrow>
           (\<exists>chunks. splitLargeContent c (Finite (of_int n)) = Some chunks \<and> concat chunks = c \<and>
              (\<forall>i. Suc i < length chunks \<longrightarrow> int (length (chunks ! i)) = n) \<and>
              (chunks \<noteq> [] \<longrightarrow> 1 \<le> length (last chunks) \<and> int (length (last chunks)) \<le> n))) \<and>
         (1 \<le> q \<longrightarrow>
           (\<exists>chunks. splitLargeContent c (Finite q) = Some chunks \<and> concat chunks = c \<and>
              (\<forall>x \<in> set chunks. x \<noteq> []) \<and> length chunks \<le> length c))"
proof (intro conjI impI)
  assume n: "0 < n"
  obtain cs where cs: "splitLoop c (Finite (of_int n)) (Finite (of_int 0)) [] = Some ([] @ cs)"
      "concat cs = drop (nat 0) c"
      "\<forall>x \<in> set (butlast cs). int (length x) = n"
      "cs \<noteq> [] \<longrightarrow> 1 \<le> length (last cs) \<and> int (length (last cs)) \<le> n"
    using splitLoop_integral [OF n assms, of 0 "[]"] by blast
  have "int (length (cs ! i)) = n" if "Suc i < length cs" for i
  proof -
    from that have "i < length (butlast cs)" by simp
    then have "butlast cs ! i \<in> set (butlast cs)" by (rule nth_mem)
    moreover have "butlast cs ! i = cs ! i" using \<open>i < length (butlast cs)\<close> by (rule nth_butlast)
    ultimately show ?thesis using cs(3) by simp
  qed
  with cs show "\<exists>chunks. splitLargeContent c (Finite (of_int n)) = Some chunks \<and> concat chunks = c \<and>
      (\<forall>i. Suc i < length chunks \<longrightarrow> int (length (chunks ! i)) = n) \<and>
      (chunks \<noteq> [] \<longrightarrow> 1 \<le> length (last chunks) \<and> int (length (last chunks)) \<le> n)"
    by (simp add: splitLargeContent_def)
next
  assume q: "1 \<le> q"
  obtain cs where cs: "splitLoop c (Finite q) (Finite 0) [] = Some ([] @ cs)"
      "concat cs = drop (nat \<lfloor>0::rat\<rfloor>) c" "\<forall>x \<in> set cs. x \<noteq> []"
    using splitLoop_ge_one [OF q assms, of 0 "[]"] by blast
  from cs(3) have "length cs \<le> length (concat cs)" by (rule length_le_concat)
  with cs show "\<exists>chunks. splitLargeContent c (Finite q) = Some chunks \<and> concat chunks = c \<and>
      (\<forall>x \<in> set chunks. x \<noteq> []) \<and> length chunks \<le> length c"
    by (simp add: splitLargeContent_def)
qed

theorem splitLargeContent_concat_and_sizes_witness:
  "int (length (js ''abcdefg'')) \<le> 2 ^ 53 \<and> (0::int) < 3 \<and> (1::rat) \<le> 5 / 2 \<and>
   splitLargeContent (js ''abcdefg'') (Finite (of_int 3)) = Some [js ''abc'', js ''def'', js ''g''] \<and>
   splitLargeContent (js ''abcdefg'') (Finite (5 / 2)) = Some [js ''ab'', js ''cde'', js ''fg''] \<and>
   (\<exists>chunks. splitLargeContent (js ''abcdefg'') (Finite (of_int 3)) = Some chunks \<and>
      concat chunks = js ''abcdefg'' \<and>
      (\<forall>i. Suc i < length chunks \<longrightarrow> int (length (chunks ! i)) = 3) \<and>
      (chunks \<noteq> [] \<longrightarrow> 1 \<le> length (last chunks) \<and> int (length (last chunks)) \<le> 3)) \<and>
   (\<exists>chunks. splitLargeContent (js ''abcdefg'') (Finite (5 / 2)) = Some chunks \<and>
      concat chunks = js ''abcdefg'' \<and> (\<forall>x \<in> set chunks. x \<noteq> []) \<and>
      length chunks \<le> length (js ''abcdefg''))"
proof -
  have h: "int (length (js ''abcdefg'')) \<le> 2 ^ 53" "(0::int) < 3" "(1::rat) \<le> 5 / 2"
    by (simp_all add: js_def)
  from h split_abcdefg_3 split_abcdefg_half
    splitLargeContent_concat_and_sizes [OF h(1), of 3 "5 / 2"]
  show ?thesis by blast
qed

text \<open>
  Claim C10, as stated: \<open>splitLargeContent\<close> returns exactly when \<open>maxChunkSize > 0\<close>.
  It fails for NaN, which is not greater than 0: the first round pushes an empty chunk,
  the index becomes NaN, the loop condition is false and the call returns.
\<close>

theorem splitLargeContent_NaN_counterexample:
  "splitLargeContent (js ''abc'') NaN = Some [[]] \<and> \<not> number_less (Finite 0) NaN"
  by (simp add: splitLargeContent_NaN js_def)

text \<open>
  Claim C10, amended. On a content of at most \<open>2\<^sup>5\<^sup>3\<close> code units \<open>splitLargeContent\<close>
  returns for every finite \<open>maxChunkSize \<ge> 1\<close>: the index strictly increases in each
  round, and by exactly \<open>maxChunkSize\<close> when both are integers and the sum stays within
  \<open>2\<^sup>5\<^sup>3\<close>. It also returns for \<open>Infinity\<close> and for NaN on a content that is not empty
  (with one chunk holding the content, and with one empty chunk). On the empty content it
  returns the empty list for any \<open>maxChunkSize\<close>. With a \<open>maxChunkSize\<close> that is zero,
  negative or \<open>-Infinity\<close> and a content that is not empty the index never rises above
  zero and the loop, entered at any such index, does not end. The limit on the length of
  an array, which such a loop would reach in the end, is not represented.
\<close>

theorem splitLargeContent_terminates_iff:
  "(1 \<le> q \<and> int (length c) \<le> 2 ^ 53 \<longrightarrow> splitLargeContent c (Finite q) \<noteq> None) \<and>
   (1 \<le> q \<and> 0 \<le> s \<and> s < 2 ^ 53 \<longrightarrow>
      number_less (Finite s) (number_add (Finite s) (Finite q))) \<and>
   (0 \<le> i \<and> 0 < n \<and> i + n \<le> 2 ^ 53 \<longrightarrow>
      number_add (Finite (of_int i)) (Finite (of_int n)) = Finite (of_int (i + n))) \<and>
   splitLargeContent [] k = Some [] \<and>
   (c \<noteq> [] \<longrightarrow> splitLargeContent c PosInf = Some [c] \<and> splitLargeContent c NaN = Some [[]]) \<and>
   (c \<noteq> [] \<and> nonpositive k \<longrightarrow> splitLargeContent c k = None) \<and>
   (c \<noteq> [] \<and> nonpositive k \<and> nonpositive start \<longrightarrow>
      nonpositive (number_add start k) \<and> splitLoop c k start chunks = None)"
proof (intro conjI impI)
  assume a: "1 \<le> q \<and> int (length c) \<le> 2 ^ 53"
  then have "1 \<le> q" "int (length c) \<le> 2 ^ 53" by simp_all
  from splitLoop_ge_one [OF this, of 0 "[]"] show "splitLargeContent c (Finite q) \<noteq> None"
    by (auto simp: splitLargeContent_def)
next
  assume "1 \<le> q \<and> 0 \<le> s \<and> s < 2 ^ 53"
  then show "number_less (Finite s) (number_add (Finite s) (Finite q))"
    using add_progress by blast
next
  assume "0 \<le> i \<and> 0 < n \<and> i + n \<le> 2 ^ 53"
  then show "number_add (Finite (of_int i)) (Finite (of_int n)) = Finite (of_int (i + n))"
    using add_int_small by blast
next
  show "splitLargeContent [] k = Some []" by (rule splitLargeContent_Nil)
next
  assume "c \<noteq> []"
  then show "splitLargeContent c PosInf = Some [c]" by (rule splitLargeContent_PosInf)
next
  assume "c \<noteq> []"
  then show "splitLargeContent c NaN = Some [[]]" by (rule splitLargeContent_NaN)
next
  assume a: "c \<noteq> [] \<and> nonpositive k"
  show "splitLargeContent c k = None"
  proof (cases "splitLargeContent c k")
    case (Some r)
    then have "\<not> (c \<noteq> [] \<and> nonpositive k \<and> nonpositive (Finite 0))"
      using splitLoop_stuck [of c k "Finite 0" "[]" r] by (simp add: splitLargeContent_def)
    with a show ?thesis by simp
  qed simp
next
  assume a: "c \<noteq> [] \<and> nonpositive k \<and> nonpositive start"
  then show "nonpositive (number_add start k)" by (simp add: add_nonpositive)
  show "splitLoop c k start chunks = None"
  proof (cases "splitLoop c k start chunks")
    case (Some r)
    from splitLoop_stuck [OF this] a show ?thesis by simp
  qed simp
qed

theorem splitLargeContent_terminates_iff_witness:
  "splitLargeContent (js ''abcdefg'') (Finite (5 / 2)) = Some [js ''ab'', js ''cde'', js ''fg''] \<and>
   number_less (Finite (5 / 2)) (number_add (Finite (5 / 2)) (Finite (5 / 2))) \<and>
   number_add (Finite (of_int 2)) (Finite (of_int 2)) = Finite (of_int 4) \<and>
   splitLargeContent [] (Finite 0) = Some [] \<and>
   splitLargeContent (js ''abcdefg'') PosInf = Some [js ''abcdefg''] \<and>
   splitLargeContent (js ''abcdefg'') NaN = Some [[]] \<and>
   splitLargeContent (js ''abcdefg'') (Finite 0) = None \<and>
   splitLargeContent (js ''abcdefg'') (Finite (- 1)) = None \<and>
   splitLargeContent (js ''abcdefg'') (Finite (- 1 / 2)) = None \<and>
   splitLargeContent (js ''abcdefg'') NegInf = None \<and>
   splitLoop (js ''abcdefg'') (Finite 0) (Finite (- 3)) [] = None"
proof -
  have ne: "js ''abcdefg'' \<noteq> []" "int (length (js ''abcdefg'')) \<le> 2 ^ 53" by (simp_all add: js_def)
  show ?thesis
    using split_abcdefg_half ne
      splitLargeContent_terminates_iff
        [where q = "5 / 2" and c = "js ''abcdefg''" and s = "5 / 2" and i = 2 and n = 2
           and k = "Finite 0" and start = "Finite (- 3)" and chunks = "[]"]
      splitLargeContent_terminates_iff
        [where q = "5 / 2" and c = "js ''abcdefg''" and s = "5 / 2" and i = 2 and n = 2
           and k = "Finite (- 1)" and start = "Finite 0" and chunks = "[]"]
      splitLargeContent_terminates_iff
        [where q = "5 / 2" and c = "js ''abcdefg''" and s = "5 / 2" and i = 2 and n = 2
           and k = "Finite (- 1 / 2)" and start = "Finite 0" and chunks = "[]"]
      splitLargeContent_terminates_iff
        [where q = "5 / 2" and c = "js ''abcdefg''" and s = "5 / 2" and i = 2 and n = 2
           and k = NegInf and start = "Finite 0" and chunks = "[]"]
    by simp
qed

subsection \<open>Saving and loading\<close>

lemma toISOString_valid: "validDate d \<Longrightarrow> \<exists>s. toISOString d = Inr s \<and> new_Date s = d"
  by (cases d) simp_all

lemma opt_toISOString_valid:
  "validOptionalDate v \<Longrightarrow>
   \<exists>s. opt_toISOString v = Inr s \<and> map_option (\<lambda>s. IsDate (new_Date s)) s = v"
proof (cases v)
  case None
  then show ?thesis by simp
next
  case (Some x)
  assume "validOptionalDate v"
  with Some obtain d where x: "x = IsDate d" and d: "validDate d" by (cases x) simp_all
  from toISOString_valid [OF d] Some x show ?thesis by auto
qed

lemma serializeRecording_valid:
  "validDate (timestamp r) \<Longrightarrow> \<exists>r'. serializeRecording r = Inr r' \<and> reviveRecording r' = r"
  using toISOString_valid [of "timestamp r"]
  by (auto simp: serializeRecording_def bind_err_def reviveRecording_def)

lemma map_err_serializeRecording:
  "list_all (\<lambda>r. validDate (timestamp r)) rs \<Longrightarrow>
   \<exists>rs'. map_err serializeRecording rs = Inr rs' \<and> map reviveRecording rs' = rs"
proof (induction rs)
  case Nil
  then show ?case by simp
next
  case (Cons r rs)
  then obtain rs' where rs': "map_err serializeRecording rs = Inr rs'" "map reviveRecording rs' = rs"
    by auto
  from Cons.prems obtain r' where r': "serializeRecording r = Inr r'" "reviveRecording r' = r"
    using serializeRecording_valid [of r] by auto
  from rs' r' show ?case by (simp add: bind_err_def)
qed

lemma serialize_wellTyped:
  assumes "wellTyped note"
  shows "\<exists>r. serialize note = Inr r \<and> revive r = note \<and> note_id r = note_id note"
proof -
  from assms obtain rs where rs: "voiceRecordings note = Some rs"
      "list_all (\<lambda>r. validDate (timestamp r)) rs"
    by (auto simp: wellTyped_def split: option.splits)
  from assms obtain c where c: "toISOString (createdAt note) = Inr c" "new_Date c = createdAt note"
    using toISOString_valid by (auto simp: wellTyped_def)
  from assms obtain u where u: "toISOString (updatedAt note) = Inr u" "new_Date u = updatedAt note"
    using toISOString_valid by (auto simp: wellTyped_def)
  from assms obtain a where a: "opt_toISOString (archivedAt note) = Inr a"
      "map_option (\<lambda>s. IsDate (new_Date s)) a = archivedAt note"
    using opt_toISOString_valid [of "archivedAt note"] by (auto simp: wellTyped_def)
  from assms obtain d where d: "opt_toISOString (deletedAt note) = Inr d"
      "map_option (\<lambda>s. IsDate (new_Date s)) d = deletedAt note"
    using opt_toISOString_valid [of "deletedAt note"] by (auto simp: wellTyped_def)
  from assms obtain m where m: "opt_toISOString (reminderTime note) = Inr m"
      "map_option (\<lambda>s. IsDate (new_Date s)) m = reminderTime note"
    using opt_toISOString_valid [of "reminderTime note"] by (auto simp: wellTyped_def)
  from map_err_serializeRecording [OF rs(2)] obtain rs' where
    rs': "map_err serializeRecording rs = Inr rs'" "map reviveRecording rs' = rs"
    by auto
  show ?thesis
    by (simp add: serialize_def bind_err_def c u a d m rs rs' serializeRecordings_def
        revive_def reviveRecordings_def)
qed

lemma stored_props:
  "wellTyped note \<Longrightarrow> serialize note = Inr (stored note)"
  "wellTyped note \<Longrightarrow> revive (stored note) = note"
  "wellTyped note \<Longrightarrow> note_id (stored note) = note_id note"
  using serialize_wellTyped [of "note"] by (auto simp: stored_def)

lemma forEach_put_wellTyped:
  "list_all wellTyped notes \<Longrightarrow>
   forEach_put notes issued store = Inr (fold put (map stored notes) store)"
  by (induction "notes" arbitrary: issued store) (simp_all add: stored_props)

lemma put_insort:
  "note_id r \<notin> note_id ` set xs \<Longrightarrow> put r xs = insort_key note_id r xs"
  by (induction xs) auto

lemma fold_put_insort:
  "distinct (map note_id rs) \<Longrightarrow> note_id ` set rs \<inter> note_id ` set acc = {} \<Longrightarrow>
   fold put rs acc = fold (insort_key note_id) rs acc"
proof (induction rs arbitrary: acc)
  case Nil
  then show ?case by simp
next
  case (Cons r rs)
  from Cons.prems have fresh: "note_id r \<notin> note_id ` set acc" by auto
  have "note_id ` set rs \<inter> note_id ` set (insort_key note_id r acc) = {}"
    using Cons.prems by (auto simp: set_insort_key)
  with Cons.IH [of "insort_key note_id r acc"] Cons.prems fresh show ?case
    by (simp add: put_insort)
qed

lemma fold_put_sort:
  assumes "distinct (map note_id rs)"
  shows "fold put rs [] = sort_key note_id rs"
proof -
  have "inj_on note_id (set rs)" using assms by (simp add: distinct_map)
  then have "sort_key note_id rs = fold (insort_key note_id) rs []"
    by (rule sort_key_conv_fold)
  with fold_put_insort [OF assms, of "[]"] show ?thesis by simp
qed

lemma map_insort_key:
  "(\<And>y. g (f y) = h y) \<Longrightarrow> map f (insort_key h x xs) = insort_key g (f x) (map f xs)"
  by (induction xs) simp_all

lemma map_sort_key:
  assumes "\<And>y. g (f y) = h y"
  shows "map f (sort_key h xs) = sort_key g (map f xs)"
proof (induction xs)
  case Nil
  show ?case by simp
next
  case (Cons x xs)
  have "map f (insort_key h x (sort_key h xs)) = insort_key g (f x) (map f (sort_key h xs))"
    using assms by (rule map_insort_key)
  with Cons show ?case by simp
qed

lemma revive_id [simp]: "note_id (revive r) = note_id r"
  by (simp add: revive_def)

text \<open>
  Claim C1, as stated: for every list of notes, \<open>loadNotesFromDB\<close> after
  \<open>saveNotesToDB\<close>, with the database available, yields the input. It fails on the
  order: the store is keyed by \<open>id\<close> and \<open>getAll\<close> returns the records by ascending
  key, so the list \<open>[note_b, note_a]\<close> comes back as \<open>[note_a, note_b]\<close>.
\<close>

theorem save_then_load_counterexample:
  "fst (loadNotesFromDB True (snd (saveNotesToDB True [note_b, note_a] empty_storage))) =
     Resolved [note_a, note_b] \<and>
   [note_a, note_b] \<noteq> [note_b, note_a]"
  by (simp add: loadNotesFromDB_def saveNotesToDB_def openDB_def empty_storage_def note_a_def note_b_def
      serialize_def serializeRecordings_def serializeRecording_def bind_err_def
      revive_def reviveRecordings_def reviveRecording_def js_def)

text \<open>
  Claim C1, amended. For every list of well-typed notes with pairwise distinct ids, saved
  with the database available: the save resolves, and the load that follows resolves to
  the same notes, each equal to its input in every field (every timestamp, also of the
  voice recordings, was stored as ISO text and revived to the same time value), in
  ascending order of id; this is the input list itself when its ids are ascending.
\<close>

theorem save_then_load:
  assumes "list_all wellTyped notes" and "distinct (map note_id notes)" and "db s \<or> opens"
  shows "fst (saveNotesToDB opens notes s) = Resolved () \<and>
    fst (loadNotesFromDB opens' (snd (saveNotesToDB opens notes s))) =
      Resolved (sort_key note_id notes) \<and>
    set (sort_key note_id notes) = set notes \<and>
    length (sort_key note_id notes) = length notes \<and>
    (sorted (map note_id notes) \<longrightarrow>
       fst (loadNotesFromDB opens' (snd (saveNotesToDB opens notes s))) = Resolved notes)"
proof -
  let ?rs = "map stored notes"
  have ids: "map note_id ?rs = map note_id notes"
    using assms(1) by (induction "notes") (simp_all add: stored_props)
  have revived: "map revive ?rs = notes"
    using assms(1) by (induction "notes") (simp_all add: stored_props)
  have store: "forEach_put notes 0 [] = Inr (sort_key note_id ?rs)"
  proof -
    have "distinct (map note_id ?rs)" using assms(2) by (simp only: ids)
    then have "fold put ?rs [] = sort_key note_id ?rs" by (rule fold_put_sort)
    with forEach_put_wellTyped [OF assms(1), of 0 "[]"] show ?thesis by simp
  qed
  have opened: "openDB opens s = (Inr (), s\<lparr>db := True\<rparr>) \<or> openDB opens s = (Inr (), s)"
    using assms(3) by (auto simp: openDB_def)
  then have save: "fst (saveNotesToDB opens notes s) = Resolved ()"
    "db (snd (saveNotesToDB opens notes s))"
    "idb (snd (saveNotesToDB opens notes s)) = sort_key note_id ?rs"
    using store assms(3) by (auto simp: saveNotesToDB_def openDB_def)
  have "map revive (sort_key note_id ?rs) = sort_key note_id (map revive ?rs)"
    by (rule map_sort_key) simp
  then have load: "fst (loadNotesFromDB opens' (snd (saveNotesToDB opens notes s))) =
      Resolved (sort_key note_id notes)"
    using save(2,3) revived by (simp add: loadNotesFromDB_def openDB_def)
  show ?thesis
    using save(1) load by (simp add: sort_key_id_if_sorted)
qed

theorem save_then_load_witness:
  "list_all wellTyped [note_b, note_a] \<and> distinct (map note_id [note_b, note_a]) \<and>
   (db empty_storage \<or> True) \<and>
   fst (saveNotesToDB True [note_b, note_a] empty_storage) = Resolved () \<and>
   fst (loadNotesFromDB False (snd (saveNotesToDB True [note_b, note_a] empty_storage))) =
     Resolved [note_a, note_b] \<and>
   sorted (map note_id [note_a, note_b]) \<and>
   fst (loadNotesFromDB False (snd (saveNotesToDB True [note_a, note_b] empty_storage))) =
     Resolved [note_a, note_b]"
proof -
  have wt: "list_all wellTyped [note_b, note_a]" "list_all wellTyped [note_a, note_b]"
    by (simp_all add: wellTyped_def note_a_def note_b_def)
  have ids: "distinct (map note_id [note_b, note_a])" "distinct (map note_id [note_a, note_b])"
    "sorted (map note_id [note_a, note_b])"
    by (simp_all add: note_a_def note_b_def js_def)
  have srt: "sort_key note_id [note_b, note_a] = [note_a, note_b]"
    by (simp add: note_a_def note_b_def js_def)
  have op: "db empty_storage \<or> True" by simp
  show ?thesis
    using wt(1) ids(1,3) srt save_then_load [OF wt(1) ids(1) op, of False]
      save_then_load [OF wt(2) ids(2) op, of False]
    by simp
qed

text \<open>
  The hypothesis on the ids is needed: of two notes with one id the store keeps the one
  put last.
\<close>

lemma save_repeated_id_keeps_last:
  "fst (loadNotesFromDB True
         (snd (saveNotesToDB True [note_a, note_a\<lparr>content := js ''<p>eggs</p>''\<rparr>] empty_storage))) =
     Resolved [note_a\<lparr>content := js ''<p>eggs</p>''\<rparr>]"
  by (simp add: loadNotesFromDB_def saveNotesToDB_def openDB_def empty_storage_def note_a_def
      serialize_def serializeRecordings_def serializeRecording_def bind_err_def
      revive_def reviveRecordings_def reviveRecording_def)

subsection \<open>Fallback to the legacy store\<close>

text \<open>
  Claim C4. When the database does not open, \<open>loadNotesFromDB\<close> resolves to the legacy
  list read from the entry \<open>notes\<close> of localStorage: one note for each record of the
  entry, in the entry's order, with the record's \<open>id\<close>, \<open>title\<close>, \<open>content\<close> and
  \<open>folderId\<close>, with \<open>createdAt\<close>, \<open>updatedAt\<close> and the timestamp of every recording
  turned into \<open>Date\<close> objects, and with \<open>archivedAt\<close>, \<open>deletedAt\<close> and \<open>reminderTime\<close>
  as the texts they were stored as; it resolves to the empty list when the entry is absent
  or is not the JSON text of an array. Under the same failure \<open>saveNotesToDB\<close> resolves,
  writes nothing to localStorage and leaves both backends as they were. Neither call
  changes the storage.
\<close>

theorem load_falls_back_save_does_not:
  assumes "\<not> db s" and "\<not> opens"
  shows "loadNotesFromDB opens s =
      (Resolved
         (case ls_notes s of
            Some (NotesJSON parsed) \<Rightarrow>
              map (\<lambda>n. \<lparr>note_id = note_id n, title = title n, content = content n,
                         folderId = folderId n,
                         createdAt = new_Date (createdAt n),
                         updatedAt = new_Date (updatedAt n),
                         archivedAt = map_option IsText (archivedAt n),
                         deletedAt = map_option IsText (deletedAt n),
                         reminderTime = map_option IsText (reminderTime n),
                         voiceRecordings =
                           Some (case voiceRecordings n of
                                   None \<Rightarrow> []
                                 | Some rs \<Rightarrow>
                                     map (\<lambda>r. \<lparr>audio = audio r,
                                                  timestamp = new_Date (timestamp r)\<rparr>) rs)\<rparr>)
                parsed
          | Some OtherText \<Rightarrow> []
          | None \<Rightarrow> []), s) \<and>
    saveNotesToDB opens notes s = (Resolved (), s)"
proof -
  have r: "reviveLegacy =
      (\<lambda>n. \<lparr>note_id = note_id n, title = title n, content = content n,
                 folderId = folderId n,
                 createdAt = new_Date (createdAt n),
                 updatedAt = new_Date (updatedAt n),
                 archivedAt = map_option IsText (archivedAt n),
                 deletedAt = map_option IsText (deletedAt n),
                 reminderTime = map_option IsText (reminderTime n),
                 voiceRecordings =
                   Some (case voiceRecordings n of
                           None \<Rightarrow> []
                         | Some rs \<Rightarrow>
                             map (\<lambda>r. \<lparr>audio = audio r,
                                          timestamp = new_Date (timestamp r)\<rparr>) rs)\<rparr>)"
    by (rule ext) (simp add: reviveLegacy_def reviveRecordings_def reviveRecording_def
        split: option.split)
  show ?thesis
    using assms unfolding r [symmetric]
    by (simp add: loadNotesFromDB_def saveNotesToDB_def openDB_def loadNotesFromLocalStorage_def
        split: option.split legacy.split)
qed

theorem load_falls_back_save_does_not_witness:
  "\<not> db unopened_storage \<and> \<not> db empty_storage \<and> \<not> False \<and>
   loadNotesFromDB False unopened_storage =
     (Resolved
        [\<lparr>note_id = js ''c'', title = js ''Trip'', content = js ''<p>tickets</p>'',
          folderId = Some (js ''travel''), createdAt = Date 1500000000000,
          updatedAt = Date 1500000000999,
          archivedAt = Some (IsText (ISO 1550000000000)), deletedAt = None,
          reminderTime = Some (IsText (ISO 1560000000000)),
          voiceRecordings = Some [\<lparr>audio = js ''rec-9'', timestamp = Date 1500000000777\<rparr>]\<rparr>,
         \<lparr>note_id = js ''b'', title = js ''Ideas'', content = js ''<p>sketch</p>'',
          folderId = Some (js ''work''), createdAt = Date 1600000000000,
          updatedAt = Date 1600000000001, archivedAt = None, deletedAt = None,
          reminderTime = None, voiceRecordings = Some []\<rparr>],
      unopened_storage) \<and>
   loadNotesFromDB False empty_storage = (Resolved [], empty_storage) \<and>
   saveNotesToDB False [note_b, note_a] unopened_storage = (Resolved (), unopened_storage) \<and>
   idb unopened_storage = [stored_a] \<and>
   ls_notes unopened_storage = Some (NotesJSON [stored_c, stored_b])"
proof -
  have h: "\<not> db unopened_storage" "\<not> db empty_storage" "\<not> False"
    by (simp_all add: unopened_storage_def empty_storage_def)
  have l: "ls_notes unopened_storage = Some (NotesJSON [stored_c, stored_b])"
    "ls_notes empty_storage = None" "idb unopened_storage = [stored_a]"
    by (simp_all add: unopened_storage_def empty_storage_def)
  show ?thesis
    using h l(3) load_falls_back_save_does_not [OF h(1) h(3), of "[note_b, note_a]"]
      load_falls_back_save_does_not [OF h(2) h(3), of "[]"]
    unfolding l(1,2)
    by (simp add: stored_c_def stored_b_def)
qed

subsection \<open>Migration\<close>

lemma openDB_fields [simp]:
  "idb (snd (openDB opens s)) = idb s"
  "ls_notes (snd (openDB opens s)) = ls_notes s"
  "ls_migrated (snd (openDB opens s)) = ls_migrated s"
  by (simp_all add: openDB_def)

lemma openDB_again:
  "fst (openDB opens s) = Inr () \<Longrightarrow> openDB opens' (snd (openDB opens s)) = (Inr (), snd (openDB opens s))"
  by (auto simp: openDB_def split: if_splits)

lemma saveNotesToDB_cases:
  "(\<exists>s'. saveNotesToDB opens notes s = (Resolved (), s')) \<or>
   (fst (openDB opens s) = Inr () \<and> (\<exists>e n. forEach_put notes 0 [] = Inl (e, n)) \<and>
      (saveNotesToDB opens notes s = (Pending, snd (openDB opens s)) \<or>
       saveNotesToDB opens notes s = (Rejected AbortError, snd (openDB opens s))))"
  by (cases "openDB opens s"; cases "forEach_put notes 0 []")
     (auto simp: saveNotesToDB_def split: sum.splits prod.splits)

text \<open>
  Claim C5, as stated: a second \<open>migrateNotesToIndexedDB\<close> changes no stored value.
  It fails when the flag is unset and the entry \<open>notes\<close> holds an empty array: the first
  call sets the flag and keeps the entry, the second call, finding the flag, removes it.
\<close>

theorem migrate_twice_counterexample:
  "ls_notes (snd (migrateNotesToIndexedDB True
       (snd (migrateNotesToIndexedDB True (empty_storage\<lparr>ls_notes := Some (NotesJSON [])\<rparr>))))) = None \<and>
   ls_notes (snd (migrateNotesToIndexedDB True (empty_storage\<lparr>ls_notes := Some (NotesJSON [])\<rparr>))) =
     Some (NotesJSON [])"
  by (simp add: migrateNotesToIndexedDB_def empty_storage_def loadNotesFromLocalStorage_def js_def)

lemma migrate_when_flag_set:
  "ls_migrated s = Some (js ''true'') \<Longrightarrow>
   migrateNotesToIndexedDB opens s = (Resolved False, s\<lparr>ls_notes := None\<rparr>)"
  by (simp add: migrateNotesToIndexedDB_def)

text \<open>
  Claim C5, amended. For every starting state and whether or not the database opens at
  either call, the second of two successive migrations leaves the contents of the
  database and the migration flag as the first left them; it leaves the entry \<open>notes\<close>
  as well, except that it removes the entry when the first call found the flag unset and
  no note to migrate. Whenever the flag is set after the first call, the second call
  saves nothing: it resolves to false and at most removes the entry \<open>notes\<close>.
\<close>

theorem migrate_twice:
  "(let s1 = snd (migrateNotesToIndexedDB opens1 s);
        s2 = snd (migrateNotesToIndexedDB opens2 s1)
    in idb s2 = idb s1 \<and> ls_migrated s2 = ls_migrated s1 \<and> db s2 = db s1 \<and>
       s2 = (if ls_migrated s \<noteq> Some (js ''true'') \<and> loadNotesFromLocalStorage s = []
             then s1\<lparr>ls_notes := None\<rparr> else s1) \<and>
       (ls_migrated s1 = Some (js ''true'') \<longrightarrow>
          migrateNotesToIndexedDB opens2 s1 = (Resolved False, s1\<lparr>ls_notes := None\<rparr>)))"
proof (cases "ls_migrated s = Some (js ''true'')")
  case True
  then show ?thesis by (simp add: migrate_when_flag_set Let_def)
next
  case unset: False
  show ?thesis
  proof (cases "loadNotesFromLocalStorage s = []")
    case True
    with unset have "migrateNotesToIndexedDB opens1 s = (Resolved False, s\<lparr>ls_migrated := Some (js ''true'')\<rparr>)"
      by (simp add: migrateNotesToIndexedDB_def)
    with unset True show ?thesis by (simp add: migrate_when_flag_set Let_def)
  next
    case False
    let ?notes = "loadNotesFromLocalStorage s"
    from saveNotesToDB_cases [of opens1 ?notes s]
    consider (resolved) s' where "saveNotesToDB opens1 ?notes s = (Resolved (), s')"
      | (aborted) e n where "fst (openDB opens1 s) = Inr ()" "forEach_put ?notes 0 [] = Inl (e, n)"
          "saveNotesToDB opens1 ?notes s = (Pending, snd (openDB opens1 s)) \<or>
           saveNotesToDB opens1 ?notes s = (Rejected AbortError, snd (openDB opens1 s))"
      by blast
    then show ?thesis
    proof cases
      case resolved
      with unset False have "migrateNotesToIndexedDB opens1 s =
          (Resolved True, s'\<lparr>ls_migrated := Some (js ''true''), ls_notes := None\<rparr>)"
        by (simp add: migrateNotesToIndexedDB_def)
      with unset False show ?thesis by (simp add: migrate_when_flag_set Let_def)
    next
      case aborted
      let ?s1 = "snd (openDB opens1 s)"
      from aborted(3) unset False have s1: "snd (migrateNotesToIndexedDB opens1 s) = ?s1"
        by (auto simp: migrateNotesToIndexedDB_def)
      have same: "loadNotesFromLocalStorage ?s1 = ?notes"
        by (simp add: loadNotesFromLocalStorage_def)
      have "migrateNotesToIndexedDB opens2 ?s1 = (Pending, ?s1) \<or>
            migrateNotesToIndexedDB opens2 ?s1 = (Resolved False, ?s1)"
        using unset False aborted(2) openDB_again [OF aborted(1), of opens2]
        by (simp add: migrateNotesToIndexedDB_def same saveNotesToDB_def Let_def)
      then have "snd (migrateNotesToIndexedDB opens2 ?s1) = ?s1" by auto
      with s1 unset False show ?thesis by (simp add: Let_def)
    qed
  qed
qed

theorem migrate_twice_witness:
  "(let s1 = snd (migrateNotesToIndexedDB True legacy_storage);
        s2 = snd (migrateNotesToIndexedDB True s1)
    in s1 = \<lparr>db = True, idb = [stored_a, stored_b\<lparr>voiceRecordings := Some []\<rparr>], ls_notes = None, ls_migrated = Some (js ''true'')\<rparr> \<and>
       s2 = s1 \<and> migrateNotesToIndexedDB True s1 = (Resolved False, s1\<lparr>ls_notes := None\<rparr>))"
proof -
  have s1: "migrateNotesToIndexedDB True legacy_storage =
      (Resolved True, \<lparr>db = True, idb = [stored_a, stored_b\<lparr>voiceRecordings := Some []\<rparr>], ls_notes = None, ls_migrated = Some (js ''true'')\<rparr>)"
    by (simp add: migrateNotesToIndexedDB_def legacy_storage_def loadNotesFromLocalStorage_def
        saveNotesToDB_def openDB_def stored_a_def stored_b_def reviveLegacy_def reviveRecordings_def
        reviveRecording_def serialize_def serializeRecordings_def serializeRecording_def bind_err_def js_def)
  show ?thesis
    using migrate_twice [of True legacy_storage True] s1
    by (simp add: Let_def legacy_storage_def loadNotesFromLocalStorage_def js_def)
qed

subsection \<open>Debounced saving\<close>

lemma debounce_idle:
  "pending s = [] \<Longrightarrow>
   armed notes delay (debouncedSaveNotes notes delay s) \<and>
   saves (debouncedSaveNotes notes delay s) = saves s"
  by (cases "saveTimeout s")
     (simp_all add: debouncedSaveNotes_def setTimeout_def clearTimeout_def armed_def Let_def)

lemma debounce_armed:
  "armed n q s \<Longrightarrow>
   armed notes delay (debouncedSaveNotes notes delay s) \<and>
   saves (debouncedSaveNotes notes delay s) = saves s"
  by (cases "saveTimeout s")
     (simp_all add: debouncedSaveNotes_def setTimeout_def clearTimeout_def armed_def Let_def)

lemma elapse_idle:
  "pending s = [] \<Longrightarrow> pending (elapse d s) = [] \<and> saves (elapse d s) = saves s"
  by (simp add: elapse_def Let_def)

lemma elapse_early:
  "armed n q s \<Longrightarrow> d < q \<Longrightarrow> armed n (q - d) (elapse d s) \<and> saves (elapse d s) = saves s"
  by (cases "saveTimeout s") (simp_all add: armed_def elapse_def Let_def)

lemma elapse_due:
  "armed n q s \<Longrightarrow> q \<le> d \<Longrightarrow> pending (elapse d s) = [] \<and> saves (elapse d s) = saves s @ [n]"
  by (cases "saveTimeout s") (simp_all add: armed_def elapse_def Let_def)

lemma armed_single: "armed n q s \<Longrightarrow> length (pending s) \<le> 1"
  by (cases "saveTimeout s") (simp_all add: armed_def)

lemma run_armed:
  "armed n q s \<Longrightarrow> within_quiet q calls \<Longrightarrow> \<forall>st \<in> set history. length (pending st) \<le> 1 \<Longrightarrow>
   (\<forall>st \<in> set (run calls s history). length (pending st) \<le> 1) \<and>
   saves (hd (run calls s history)) = saves s \<and>
   (case last ((0, n, q) # calls) of (g, notesN, delayN) \<Rightarrow> armed notesN delayN (hd (run calls s history)))"
proof (induction calls arbitrary: n q s history)
  case Nil
  then show ?case using armed_single [of n q s] by simp
next
  case (Cons c calls)
  obtain gap ns delay where c: "c = (gap, ns, delay)" by (cases c)
  from Cons.prems c have early: "gap < q" and rest: "within_quiet delay calls" by simp_all
  let ?s1 = "elapse gap s"
  let ?s2 = "debouncedSaveNotes ns delay ?s1"
  from elapse_early [OF Cons.prems(1) early]
  have s1: "armed n (q - gap) ?s1" "saves ?s1 = saves s" by simp_all
  from debounce_armed [OF s1(1)] s1(2)
  have s2: "armed ns delay ?s2" "saves ?s2 = saves s" by simp_all
  have hist: "\<forall>st \<in> set (?s1 # s # history). length (pending st) \<le> 1"
    using Cons.prems(3) armed_single [OF Cons.prems(1)] armed_single [OF s1(1)] by simp
  from Cons.IH [OF s2(1) rest hist] s2 show ?case
    by (cases "calls = []") (simp_all add: c)
qed

text \<open>
  Claim C8. Starting with no timer pending, for every sequence of calls of
  \<open>debouncedSaveNotes\<close> in which each call after the first comes before the delay of
  the call before it has passed: at every moment at most one timer is pending, no save
  fires during the sequence, and once the delay of the last call has passed exactly one
  save has fired, with the notes of the last call, and no timer is left.
\<close>

theorem debounce_coalesces:
  assumes "pending s = []" and "within_quiet delay calls"
  shows "(let states = run ((gap, notes, delay) # calls) s [];
              final = hd states;
              (g, notesN, delayN) = last ((gap, notes, delay) # calls)
          in (\<forall>st \<in> set states. length (pending st) \<le> 1) \<and>
             saves final = saves s \<and>
             (\<forall>d. saves (elapse d final) = (if delayN \<le> d then saves s @ [notesN] else saves s)) \<and>
             (\<forall>d. delayN \<le> d \<longrightarrow> pending (elapse d final) = []))"
proof -
  let ?s1 = "elapse gap s"
  let ?s2 = "debouncedSaveNotes notes delay ?s1"
  let ?states = "run calls ?s2 [?s1, s]"
  obtain g notesN delayN where l: "last ((gap, notes, delay) # calls) = (g, notesN, delayN)"
    by (cases "last ((gap, notes, delay) # calls)")
  then have l0: "last ((0, notes, delay) # calls) = (if calls = [] then 0 else g, notesN, delayN)"
    by (cases calls) auto
  from elapse_idle [OF assms(1)] have s1: "pending ?s1 = []" "saves ?s1 = saves s" by simp_all
  from debounce_idle [OF s1(1)] s1(2) have s2: "armed notes delay ?s2" "saves ?s2 = saves s"
    by simp_all
  have hist: "\<forall>st \<in> set [?s1, s]. length (pending st) \<le> 1"
    using assms(1) s1(1) by simp
  from run_armed [OF s2(1) assms(2) hist] s2(2) l0
  have r: "\<forall>st \<in> set ?states. length (pending st) \<le> 1" "saves (hd ?states) = saves s"
    "armed notesN delayN (hd ?states)"
    by simp_all
  have fire: "saves (elapse d (hd ?states)) = (if delayN \<le> d then saves s @ [notesN] else saves s)" for d
    using elapse_due [OF r(3), of d] elapse_early [OF r(3), of d] r(2) by (cases "delayN \<le> d") simp_all
  have gone: "delayN \<le> d \<Longrightarrow> pending (elapse d (hd ?states)) = []" for d
    using elapse_due [OF r(3), of d] by simp
  show ?thesis
    unfolding Let_def run.simps l prod.case using r(1,2) fire gone by blast
qed

theorem debounce_coalesces_witness:
  "pending (idle_scheduler :: string scheduler) = [] \<and>
   within_quiet 500 [(100, ''B'', 500), (499, ''C'', 500)] \<and>
   map (\<lambda>st. length (pending st))
     (run [(0, ''A'', 500), (100, ''B'', 500), (499, ''C'', 500)] idle_scheduler []) =
     [1, 1, 1, 1, 1, 0, 0] \<and>
   saves (hd (run [(0, ''A'', 500), (100, ''B'', 500), (499, ''C'', 500)] idle_scheduler [])) = [] \<and>
   saves (elapse 499 (hd (run [(0, ''A'', 500), (100, ''B'', 500), (499, ''C'', 500)] idle_scheduler []))) = [] \<and>
   saves (elapse 500 (hd (run [(0, ''A'', 500), (100, ''B'', 500), (499, ''C'', 500)] idle_scheduler []))) = [''C''] \<and>
   pending (elapse 500 (hd (run [(0, ''A'', 500), (100, ''B'', 500), (499, ''C'', 500)] idle_scheduler []))) = []"
proof -
  have h: "pending (idle_scheduler :: string scheduler) = []"
    "within_quiet 500 [(100, ''B'', 500), (499, ''C'', 500)]"
    by (simp_all add: idle_scheduler_def)
  have e: "saves (idle_scheduler :: string scheduler) = []" by (simp add: idle_scheduler_def)
  have n: "map (\<lambda>st. length (pending st))
      (run [(0, ''A'', 500), (100, ''B'', 500), (499, ''C'', 500)] (idle_scheduler :: string scheduler) []) =
      [1, 1, 1, 1, 1, 0, 0]"
    by (simp add: idle_scheduler_def debouncedSaveNotes_def setTimeout_def clearTimeout_def
        elapse_def Let_def)
  show ?thesis
    using h debounce_coalesces [OF h, of 0 "''A''"] e n
    by (simp add: Let_def del: run.simps)
qed


section \<open>Properties of the protection manager\<close>

subsection \<open>Strings, keys and hashes\<close>

lemma js_Nil [simp]: "js [] = []"
  by (simp add: js_def)
lemma js_Cons: "js (c # cs) = of_char c # js cs"
  by (simp add: js_def)
lemma js_eq_Nil [simp]: "(js s = []) = (s = [])"
  by (simp add: js_def)

lemma toStringRadix_not_Nil [simp]: "toStringRadix radix n \<noteq> []"
  by (subst toStringRadix.simps) simp

lemma byteToHex_not_Nil [simp]: "byteToHex b \<noteq> []"
  by (simp add: byteToHex_def padStart_def)

lemma hashPasswordAsync_not_Nil [simp]: "hashPasswordAsync plat p s \<noteq> []"
  by (auto simp: hashPasswordAsync_def bufferToHex_def fallbackHash_def upt_rec [of 0 32]
      split: option.splits)

lemma generateSalt_not_Nil [simp]: "generateSalt plat \<noteq> []"
  by (simp add: generateSalt_def upt_rec [of 0 16])

lemma hashPassword_not_Nil [simp]: "hashPassword p \<noteq> []"
  by (simp add: hashPassword_def)

lemma hidden_keys_distinct [simp]:
  "HIDDEN_NOTES_PASSWORD_KEY \<noteq> HIDDEN_NOTES_SALT_KEY"
  "HIDDEN_NOTES_SALT_KEY \<noteq> HIDDEN_NOTES_PASSWORD_KEY"
  "HIDDEN_NOTES_PASSWORD_KEY \<noteq> HIDDEN_NOTES_USE_BIOMETRIC_KEY"
  "HIDDEN_NOTES_USE_BIOMETRIC_KEY \<noteq> HIDDEN_NOTES_PASSWORD_KEY"
  "HIDDEN_NOTES_SALT_KEY \<noteq> HIDDEN_NOTES_USE_BIOMETRIC_KEY"
  "HIDDEN_NOTES_USE_BIOMETRIC_KEY \<noteq> HIDDEN_NOTES_SALT_KEY"
  by (simp_all add: HIDDEN_NOTES_PASSWORD_KEY_def HIDDEN_NOTES_SALT_KEY_def
      HIDDEN_NOTES_USE_BIOMETRIC_KEY_def js_def)

lemma note_keys_distinct [simp]:
  "getNoteProtectionKey a \<noteq> getNotePasswordKey b"
  "getNotePasswordKey b \<noteq> getNoteProtectionKey a"
  "getNoteProtectionKey a \<noteq> getNoteSaltKey b"
  "getNoteSaltKey b \<noteq> getNoteProtectionKey a"
  "getNotePasswordKey a \<noteq> getNoteSaltKey b"
  "getNoteSaltKey b \<noteq> getNotePasswordKey a"
  by (simp_all add: getNoteProtectionKey_def getNotePasswordKey_def getNoteSaltKey_def js_def)

lemma note_keys_inj [simp]:
  "(getNoteProtectionKey a = getNoteProtectionKey b) = (a = b)"
  "(getNotePasswordKey a = getNotePasswordKey b) = (a = b)"
  "(getNoteSaltKey a = getNoteSaltKey b) = (a = b)"
  by (simp_all add: getNoteProtectionKey_def getNotePasswordKey_def getNoteSaltKey_def)

lemma JSON_stringify_not_Nil [simp]: "JSON_stringify p \<noteq> []"
  by (simp add: JSON_stringify_def js_def)

lemma JSON_parse_stringify [simp]: "JSON_parse (JSON_stringify p) = Some p"
proof -
  obtain h b where p: "p = \<lparr>hasPassword = h, useBiometric = b\<rparr>" by (cases p) simp
  show ?thesis unfolding p by (cases h; cases b) (simp_all add: JSON_parse_def JSON_stringify_def js_def)
qed

lemma truthy_Some [simp]: "truthy (Some s) = (s \<noteq> [])"
  by (simp add: truthy_def)
lemma truthy_None [simp]: "truthy None = False"
  by (simp add: truthy_def)
lemma orUndefined_simps [simp]:
  "orUndefined None = None" "orUndefined (Some s) = (if s = [] then None else Some s)"
  by (simp_all add: orUndefined_def)

lemma hashPasswordAsync_cong:
  "deriveBits plat' = deriveBits plat \<Longrightarrow> hashPasswordAsync plat' p s = hashPasswordAsync plat p s"
  by (simp add: hashPasswordAsync_def)

lemma verifyPassword_salted:
  "salt \<noteq> [] \<Longrightarrow> verifyPassword plat p h (Some salt) = (hashPasswordAsync plat p salt = h)"
  by (simp add: verifyPassword_def hashPasswordSecure_def)

lemma verifyPassword_legacy:
  "verifyPassword plat p h None = (hashPassword p = h)"
  by (simp add: verifyPassword_def)

lemma hidden_after_set:
  assumes "ls HIDDEN_NOTES_USE_BIOMETRIC_KEY \<noteq> Some (js ''true'')"
  shows "authenticateForHiddenNotes plat' (setHiddenNotesPassword plat x ls) pw =
    (case orUndefined pw of
       None \<Rightarrow> (False, [])
     | Some y \<Rightarrow> (hashPasswordAsync plat' y (generateSalt plat) = hashPasswordAsync plat x (generateSalt plat),
                  [PasswordCheck]))"
  using assms
  by (simp add: authenticateForHiddenNotes_def setHiddenNotesPassword_def getHiddenNotesSettings_def
      hashPasswordSecure_def verifyHiddenNotesPassword_def verifyPassword_salted Let_def
      split: option.splits)

lemma hidden_after_clear:
  "authenticateForHiddenNotes plat (clearHiddenNotesProtection ls) pw = (True, [])"
  by (simp add: authenticateForHiddenNotes_def clearHiddenNotesProtection_def getHiddenNotesSettings_def)

lemma getNoteProtection_after_set [simp]:
  "getNoteProtection (setNoteProtection plat n protection password ls) n = protection"
  by (simp add: getNoteProtection_def setNoteProtection_def hashPasswordSecure_def Let_def
      split: option.splits)

lemma note_after_set:
  assumes "x \<noteq> []"
  shows "authenticateForNote plat' (setNoteProtection plat n \<lparr>hasPassword = True, useBiometric = False\<rparr> (Some x) ls) n pw =
    (case orUndefined pw of
       None \<Rightarrow> (False, [])
     | Some y \<Rightarrow> (hashPasswordAsync plat' y (generateSalt plat) = hashPasswordAsync plat x (generateSalt plat),
                  [PasswordCheck]))"
proof -
  let ?ls = "setNoteProtection plat n \<lparr>hasPassword = True, useBiometric = False\<rparr> (Some x) ls"
  have stored: "?ls (getNotePasswordKey n) = Some (hashPasswordAsync plat x (generateSalt plat))"
    "?ls (getNoteSaltKey n) = Some (generateSalt plat)"
    using assms by (simp_all add: setNoteProtection_def hashPasswordSecure_def Let_def)
  show ?thesis
    by (simp add: authenticateForNote_def verifyNotePassword_def stored verifyPassword_salted
        split: option.splits)
qed

lemma note_after_remove:
  "authenticateForNote plat (removeNoteProtection n ls) n pw = (True, [])"
  by (simp add: authenticateForNote_def removeNoteProtection_def getNoteProtection_def)

subsection \<open>Unprotected scopes and the credential lifecycle\<close>

text \<open>
  Claim C2. A scope whose stored state has \<open>useBiometric = false\<close> and no password
  hash is unprotected: authentication succeeds for every password argument, whatever the
  other stored flags say. For a note the code decides on the stored protection record
  alone: after \<open>setNoteProtection("n1", {hasPassword: true, useBiometric: false})\<close>
  with no password on an empty store, no hash is stored and biometric is off, yet
  \<open>authenticateForNote\<close> denies every password, on every platform.
\<close>

theorem note_flag_without_hash_locks_out:
  "(let ls = setNoteProtection plat (js ''n1'') \<lparr>hasPassword = True, useBiometric = False\<rparr> None Map.empty
    in ls (getNotePasswordKey (js ''n1'')) = None \<and>
       \<not> useBiometric (getNoteProtection ls (js ''n1'')) \<and>
       authenticateForNote plat' ls (js ''n1'') password =
         (False, if truthy password then [PasswordCheck] else []))"
proof -
  let ?ls = "setNoteProtection plat (js ''n1'') \<lparr>hasPassword = True, useBiometric = False\<rparr> None Map.empty"
  have stored: "?ls (getNotePasswordKey (js ''n1'')) = None"
    by (simp add: setNoteProtection_def)
  have "authenticateForNote plat' ?ls (js ''n1'') password =
         (False, if truthy password then [PasswordCheck] else [])"
    by (cases password) (simp_all add: authenticateForNote_def verifyNotePassword_def stored)
  with stored show ?thesis by (simp add: Let_def)
qed

text \<open>
  The hidden-notes scope derives \<open>hasPassword\<close> from the stored hash and grants access;
  so does a note whose record has both flags off.
\<close>

lemma hidden_notes_unprotected:
  "\<not> truthy (ls HIDDEN_NOTES_PASSWORD_KEY) \<Longrightarrow>
   ls HIDDEN_NOTES_USE_BIOMETRIC_KEY \<noteq> Some (js ''true'') \<Longrightarrow>
   authenticateForHiddenNotes plat ls password = (True, [])"
  by (simp add: authenticateForHiddenNotes_def getHiddenNotesSettings_def)

lemma note_unprotected:
  "\<not> hasPassword (getNoteProtection ls noteId) \<Longrightarrow> \<not> useBiometric (getNoteProtection ls noteId) \<Longrightarrow>
   authenticateForNote plat ls noteId password = (True, [])"
  by (simp add: authenticateForNote_def)

text \<open>
  Claim C3, as stated: after \<open>setPassword(scope, x)\<close> with biometric disabled,
  \<open>authenticate(scope, x)\<close> is true for every password \<open>x\<close>. It fails for the empty
  password: the hash of \<open>""\<close> is stored, and the guard \<open>password && hasPassword\<close>
  treats the empty argument as no password.
\<close>

theorem empty_password_counterexample:
  "fst (authenticateForHiddenNotes web_platform
         (setHiddenNotesPassword web_platform (js '''') Map.empty) (Some (js ''''))) = False"
  by (simp add: hidden_after_set)

text \<open>
  Claim C3, amended. For every password \<open>x\<close> that is not empty, with biometric disabled
  and the same key derivation at both calls: after \<open>setHiddenNotesPassword(x)\<close>, and
  after \<open>setNoteProtection(n, {hasPassword: true, useBiometric: false}, x)\<close>,
  authentication with \<open>x\<close> is granted, and authentication with any argument is granted
  exactly when the argument is a non-empty password whose hash under the stored salt
  equals that of \<open>x\<close>; after \<open>clearHiddenNotesProtection\<close>, and after
  \<open>removeNoteProtection(n)\<close>, authentication is granted for every argument, also none.
\<close>

theorem credential_lifecycle:
  assumes "x \<noteq> []" and "deriveBits plat' = deriveBits plat"
    and "ls HIDDEN_NOTES_USE_BIOMETRIC_KEY \<noteq> Some (js ''true'')"
  shows "fst (authenticateForHiddenNotes plat' (setHiddenNotesPassword plat x ls) (Some x)) \<and>
    fst (authenticateForHiddenNotes plat' (setHiddenNotesPassword plat x ls) password) =
      (\<exists>y. password = Some y \<and> y \<noteq> [] \<and>
           hashPasswordAsync plat y (generateSalt plat) = hashPasswordAsync plat x (generateSalt plat)) \<and>
    fst (authenticateForHiddenNotes plat' (clearHiddenNotesProtection ls') password) \<and>
    fst (authenticateForNote plat'
          (setNoteProtection plat n \<lparr>hasPassword = True, useBiometric = False\<rparr> (Some x) ls) n (Some x)) \<and>
    fst (authenticateForNote plat'
          (setNoteProtection plat n \<lparr>hasPassword = True, useBiometric = False\<rparr> (Some x) ls) n password) =
      (\<exists>y. password = Some y \<and> y \<noteq> [] \<and>
           hashPasswordAsync plat y (generateSalt plat) = hashPasswordAsync plat x (generateSalt plat)) \<and>
    fst (authenticateForNote plat' (removeNoteProtection n ls') n password)"
proof -
  have same: "hashPasswordAsync plat' y s = hashPasswordAsync plat y s" for y s
    using assms(2) by (rule hashPasswordAsync_cong)
  have g: "fst (authenticateForHiddenNotes plat' (setHiddenNotesPassword plat x ls) pw) =
      (\<exists>y. pw = Some y \<and> y \<noteq> [] \<and>
           hashPasswordAsync plat y (generateSalt plat) = hashPasswordAsync plat x (generateSalt plat))" for pw
    by (cases pw) (simp_all add: hidden_after_set [of ls, OF assms(3)] same)
  have n: "fst (authenticateForNote plat'
          (setNoteProtection plat n \<lparr>hasPassword = True, useBiometric = False\<rparr> (Some x) ls) n pw) =
      (\<exists>y. pw = Some y \<and> y \<noteq> [] \<and>
           hashPasswordAsync plat y (generateSalt plat) = hashPasswordAsync plat x (generateSalt plat))" for pw
    by (cases pw) (simp_all add: note_after_set [OF assms(1)] same)
  have gx: "fst (authenticateForHiddenNotes plat' (setHiddenNotesPassword plat x ls) (Some x))"
    unfolding g using assms(1) by simp
  have nx: "fst (authenticateForNote plat'
          (setNoteProtection plat n \<lparr>hasPassword = True, useBiometric = False\<rparr> (Some x) ls) n (Some x))"
    unfolding n using assms(1) by simp
  show ?thesis
    using gx nx g [of password] n [of password]
    by (simp add: hidden_after_clear note_after_remove)
qed

lemma generateSalt_web: "generateSalt web_platform = js ''00112233445566778899aabbccddeeff''"
  by (simp add: generateSalt_def web_platform_def upt_rec [of _ 16] byteToHex_def padStart_def
      digitChar_def js_def)

lemma fallback_orange17:
  "hashPasswordAsync web_platform (js ''orange17'') (generateSalt web_platform) = js ''fallback_357wto''"
  unfolding generateSalt_web
  by (simp add: hashPasswordAsync_def web_platform_def fallbackHash_def js_def digitChar_def)

lemma fallback_wrong:
  "hashPasswordAsync web_platform (js ''wrong'') (generateSalt web_platform) = js ''fallback_o4hdeb''"
  unfolding generateSalt_web
  by (simp add: hashPasswordAsync_def web_platform_def fallbackHash_def js_def digitChar_def)

theorem credential_lifecycle_witness:
  "js ''orange17'' \<noteq> [] \<and> deriveBits web_platform = deriveBits web_platform \<and>
   Map.empty HIDDEN_NOTES_USE_BIOMETRIC_KEY \<noteq> Some (js ''true'') \<and>
   fst (authenticateForHiddenNotes web_platform
         (setHiddenNotesPassword web_platform (js ''orange17'') Map.empty) (Some (js ''orange17''))) \<and>
   \<not> fst (authenticateForHiddenNotes web_platform
         (setHiddenNotesPassword web_platform (js ''orange17'') Map.empty) (Some (js ''wrong''))) \<and>
   fst (authenticateForHiddenNotes web_platform
         (clearHiddenNotesProtection (setHiddenNotesPassword web_platform (js ''orange17'') Map.empty)) None) \<and>
   fst (authenticateForNote web_platform
         (setNoteProtection web_platform (js ''n1'') \<lparr>hasPassword = True, useBiometric = False\<rparr>
            (Some (js ''orange17'')) Map.empty) (js ''n1'') (Some (js ''orange17''))) \<and>
   \<not> fst (authenticateForNote web_platform
         (setNoteProtection web_platform (js ''n1'') \<lparr>hasPassword = True, useBiometric = False\<rparr>
            (Some (js ''orange17'')) Map.empty) (js ''n1'') (Some (js ''wrong''))) \<and>
   fst (authenticateForNote web_platform
         (removeNoteProtection (js ''n1'')
            (setNoteProtection web_platform (js ''n1'') \<lparr>hasPassword = True, useBiometric = False\<rparr>
               (Some (js ''orange17'')) Map.empty)) (js ''n1'') None)"
proof -
  have differ: "hashPasswordAsync web_platform (js ''wrong'') (generateSalt web_platform) \<noteq>
      hashPasswordAsync web_platform (js ''orange17'') (generateSalt web_platform)"
    unfolding fallback_orange17 fallback_wrong by (simp add: js_def)
  have hyps: "js ''orange17'' \<noteq> []" "deriveBits web_platform = deriveBits web_platform"
    "Map.empty HIDDEN_NOTES_USE_BIOMETRIC_KEY \<noteq> Some (js ''true'')"
    by simp_all
  show ?thesis
    using differ hyps(1)
      credential_lifecycle [OF hyps, of "Some (js ''wrong'')"
        "setHiddenNotesPassword web_platform (js ''orange17'') Map.empty" "js ''n1''"]
      credential_lifecycle [OF hyps, of None
        "setHiddenNotesPassword web_platform (js ''orange17'') Map.empty" "js ''n1''"]
      credential_lifecycle [OF hyps, of None
        "setNoteProtection web_platform (js ''n1'') \<lparr>hasPassword = True, useBiometric = False\<rparr>
               (Some (js ''orange17'')) Map.empty" "js ''n1''"]
    by simp
qed

text \<open>
  The comparison is one of hashes: where Web Crypto raises, \<open>fallbackHash\<close> gives
  \<open>Aa\<close> and \<open>BB\<close> the same hash under every salt, and one password opens what the
  other locked.
\<close>

lemma fallbackHash_collision:
  "fst (authenticateForHiddenNotes web_platform
         (setHiddenNotesPassword web_platform (js ''Aa'') Map.empty) (Some (js ''BB'')))"
proof -
  have "hashLoop 0 (js ''Aa'' @ salt) = hashLoop 0 (js ''BB'' @ salt)" for salt
    by (simp add: js_def)
  then have "hashPasswordAsync web_platform (js ''BB'') salt =
      hashPasswordAsync web_platform (js ''Aa'') salt" for salt
    by (simp add: hashPasswordAsync_def web_platform_def fallbackHash_def)
  then show ?thesis by (simp add: hidden_after_set)
qed

subsection \<open>Biometric precedence\<close>

text \<open>
  Claim C6. When the scope has biometric enabled and the biometric gate returns true,
  authentication returns true whatever the password argument (also none) and whatever is
  stored as hash and salt, and it runs the biometric gate only, not the password check.
  Whenever the password check runs, either biometric is disabled for the scope, or the
  biometric gate was tried first and returned false.
\<close>

theorem biometric_precedence:
  "(authenticateWithBiometric plat \<and> useBiometric (getHiddenNotesSettings ls) \<longrightarrow>
      authenticateForHiddenNotes plat ls password = (True, [BiometricAttempt])) \<and>
   (authenticateWithBiometric plat \<and> useBiometric (getNoteProtection ls noteId) \<longrightarrow>
      authenticateForNote plat ls noteId password = (True, [BiometricAttempt])) \<and>
   (PasswordCheck \<in> set (snd (authenticateForHiddenNotes plat ls password)) \<longrightarrow>
      (if useBiometric (getHiddenNotesSettings ls)
       then \<not> authenticateWithBiometric plat \<and>
            snd (authenticateForHiddenNotes plat ls password) = [BiometricAttempt, PasswordCheck]
       else snd (authenticateForHiddenNotes plat ls password) = [PasswordCheck])) \<and>
   (PasswordCheck \<in> set (snd (authenticateForNote plat ls noteId password)) \<longrightarrow>
      (if useBiometric (getNoteProtection ls noteId)
       then \<not> authenticateWithBiometric plat \<and>
            snd (authenticateForNote plat ls noteId password) = [BiometricAttempt, PasswordCheck]
       else snd (authenticateForNote plat ls noteId password) = [PasswordCheck]))"
proof (intro conjI impI)
  assume "authenticateWithBiometric plat \<and> useBiometric (getHiddenNotesSettings ls)"
  then show "authenticateForHiddenNotes plat ls password = (True, [BiometricAttempt])"
    by (simp add: authenticateForHiddenNotes_def Let_def)
next
  assume "authenticateWithBiometric plat \<and> useBiometric (getNoteProtection ls noteId)"
  then show "authenticateForNote plat ls noteId password = (True, [BiometricAttempt])"
    by (simp add: authenticateForNote_def Let_def)
next
  assume "PasswordCheck \<in> set (snd (authenticateForHiddenNotes plat ls password))"
  then show "if useBiometric (getHiddenNotesSettings ls)
       then \<not> authenticateWithBiometric plat \<and>
            snd (authenticateForHiddenNotes plat ls password) = [BiometricAttempt, PasswordCheck]
       else snd (authenticateForHiddenNotes plat ls password) = [PasswordCheck]"
    by (auto simp: authenticateForHiddenNotes_def Let_def split: if_splits option.splits)
next
  assume "PasswordCheck \<in> set (snd (authenticateForNote plat ls noteId password))"
  then show "if useBiometric (getNoteProtection ls noteId)
       then \<not> authenticateWithBiometric plat \<and>
            snd (authenticateForNote plat ls noteId password) = [BiometricAttempt, PasswordCheck]
       else snd (authenticateForNote plat ls noteId password) = [PasswordCheck]"
    by (auto simp: authenticateForNote_def Let_def split: if_splits option.splits)
qed

theorem biometric_precedence_witness:
  "authenticateWithBiometric native_platform \<and>
   truthy (setHiddenNotesBiometric True
       (setHiddenNotesPassword native_platform (js ''orange17'') Map.empty) HIDDEN_NOTES_PASSWORD_KEY) \<and>
   useBiometric (getHiddenNotesSettings (setHiddenNotesBiometric True
       (setHiddenNotesPassword native_platform (js ''orange17'') Map.empty))) \<and>
   authenticateForHiddenNotes native_platform (setHiddenNotesBiometric True
       (setHiddenNotesPassword native_platform (js ''orange17'') Map.empty)) None =
     (True, [BiometricAttempt]) \<and>
   useBiometric (getNoteProtection (setNoteProtection native_platform (js ''n1'')
       \<lparr>hasPassword = True, useBiometric = True\<rparr> (Some (js ''orange17'')) Map.empty) (js ''n1'')) \<and>
   authenticateForNote native_platform (setNoteProtection native_platform (js ''n1'')
       \<lparr>hasPassword = True, useBiometric = True\<rparr> (Some (js ''orange17'')) Map.empty) (js ''n1'') None =
     (True, [BiometricAttempt]) \<and>
   PasswordCheck \<in> set (snd (authenticateForHiddenNotes web_platform (setHiddenNotesBiometric True
       (setHiddenNotesPassword native_platform (js ''orange17'') Map.empty)) (Some (js ''wrong'')))) \<and>
   \<not> authenticateWithBiometric web_platform \<and>
   snd (authenticateForHiddenNotes web_platform (setHiddenNotesBiometric True
       (setHiddenNotesPassword native_platform (js ''orange17'') Map.empty)) (Some (js ''wrong''))) =
     [BiometricAttempt, PasswordCheck] \<and>
   PasswordCheck \<in> set (snd (authenticateForNote web_platform (setNoteProtection native_platform (js ''n1'')
       \<lparr>hasPassword = True, useBiometric = False\<rparr> (Some (js ''orange17'')) Map.empty) (js ''n1'')
       (Some (js ''wrong'')))) \<and>
   snd (authenticateForNote web_platform (setNoteProtection native_platform (js ''n1'')
       \<lparr>hasPassword = True, useBiometric = False\<rparr> (Some (js ''orange17'')) Map.empty) (js ''n1'')
       (Some (js ''wrong''))) = [PasswordCheck]"
proof -
  let ?ls = "setHiddenNotesBiometric True
       (setHiddenNotesPassword native_platform (js ''orange17'') Map.empty)"
  let ?lsn = "setNoteProtection native_platform (js ''n1'')
       \<lparr>hasPassword = True, useBiometric = True\<rparr> (Some (js ''orange17'')) Map.empty"
  let ?lsp = "setNoteProtection native_platform (js ''n1'')
       \<lparr>hasPassword = True, useBiometric = False\<rparr> (Some (js ''orange17'')) Map.empty"
  have bio: "authenticateWithBiometric native_platform" "\<not> authenticateWithBiometric web_platform"
    by (simp_all add: authenticateWithBiometric_def native_platform_def web_platform_def)
  have stored: "truthy (?ls HIDDEN_NOTES_PASSWORD_KEY)" "useBiometric (getHiddenNotesSettings ?ls)"
    by (simp_all add: setHiddenNotesBiometric_def setHiddenNotesPassword_def hashPasswordSecure_def
        getHiddenNotesSettings_def Let_def)
  have ran: "PasswordCheck \<in> set (snd (authenticateForHiddenNotes web_platform ?ls (Some (js ''wrong''))))"
    using stored bio(2) by (simp add: authenticateForHiddenNotes_def getHiddenNotesSettings_def Let_def)
  have rann: "PasswordCheck \<in> set (snd (authenticateForNote web_platform ?lsp (js ''n1'') (Some (js ''wrong''))))"
    by (simp add: authenticateForNote_def Let_def)
  have c1: "authenticateForHiddenNotes native_platform ?ls None = (True, [BiometricAttempt])"
    using bio(1) stored(2)
      biometric_precedence [where plat = native_platform and ls = ?ls and password = None]
    by blast
  have un: "useBiometric (getNoteProtection ?lsn (js ''n1''))" by simp
  have c2: "authenticateForNote native_platform ?lsn (js ''n1'') None = (True, [BiometricAttempt])"
    using bio(1) un
      biometric_precedence [where plat = native_platform and ls = ?lsn and noteId = "js ''n1''"
        and password = None]
    by blast
  have c3: "snd (authenticateForHiddenNotes web_platform ?ls (Some (js ''wrong''))) =
      [BiometricAttempt, PasswordCheck]"
    using ran stored(2)
      biometric_precedence [where plat = web_platform and ls = ?ls and password = "Some (js ''wrong'')"]
    by presburger
  have up: "\<not> useBiometric (getNoteProtection ?lsp (js ''n1''))" by simp
  have c4: "snd (authenticateForNote web_platform ?lsp (js ''n1'') (Some (js ''wrong''))) = [PasswordCheck]"
    using rann up
      biometric_precedence [where plat = web_platform and ls = ?lsp and noteId = "js ''n1''"
        and password = "Some (js ''wrong'')"]
    by presburger
  from bio stored ran rann un c1 c2 c3 c4 show ?thesis
    by (intro conjI)
qed

subsection \<open>Verification of salted and legacy credentials\<close>

text \<open>
  Claim C7. With a salt present (a string that is not empty), \<open>verifyPassword\<close> compares
  the salted hash of the password with the stored hash; with no salt (absent, or empty)
  it returns true iff the legacy hash \<open>hashPassword\<close> of the password equals the stored
  hash. Hence a credential stored without salt and made by the legacy hash verifies with
  the same password, through \<open>verifyHiddenNotesPassword\<close>, \<open>verifyNotePassword\<close> and,
  for a password that is not empty, through the two authentications.
\<close>

theorem verifyPassword_salted_and_legacy:
  "(salt \<noteq> [] \<longrightarrow> verifyPassword plat p h (Some salt) = (hashPasswordAsync plat p salt = h)) \<and>
   verifyPassword plat p h None = (hashPassword p = h) \<and>
   verifyPassword plat p h (Some []) = (hashPassword p = h) \<and>
   verifyPassword plat p (hashPassword p) None \<and>
   (ls HIDDEN_NOTES_PASSWORD_KEY = Some (hashPassword p) \<and> \<not> truthy (ls HIDDEN_NOTES_SALT_KEY) \<longrightarrow>
      verifyHiddenNotesPassword plat ls p \<and>
      (p \<noteq> [] \<longrightarrow> fst (authenticateForHiddenNotes plat ls (Some p)))) \<and>
   (ls (getNotePasswordKey n) = Some (hashPassword p) \<and> \<not> truthy (ls (getNoteSaltKey n)) \<longrightarrow>
      verifyNotePassword plat ls n p \<and>
      (p \<noteq> [] \<and> hasPassword (getNoteProtection ls n) \<longrightarrow>
         fst (authenticateForNote plat ls n (Some p))))"
proof -
  have leg: "verifyPassword plat p h s = (hashPassword p = h)" if "\<not> truthy s" for s h
    using that by (simp add: verifyPassword_def)
  have g: "verifyHiddenNotesPassword plat ls p"
    if "ls HIDDEN_NOTES_PASSWORD_KEY = Some (hashPassword p)" "\<not> truthy (ls HIDDEN_NOTES_SALT_KEY)"
    using that by (simp add: verifyHiddenNotesPassword_def leg orUndefined_def)
  have nt: "verifyNotePassword plat ls n p"
    if "ls (getNotePasswordKey n) = Some (hashPassword p)" "\<not> truthy (ls (getNoteSaltKey n))"
    using that by (simp add: verifyNotePassword_def leg orUndefined_def)
  have ga: "fst (authenticateForHiddenNotes plat ls (Some p))"
    if "ls HIDDEN_NOTES_PASSWORD_KEY = Some (hashPassword p)" "\<not> truthy (ls HIDDEN_NOTES_SALT_KEY)" "p \<noteq> []"
    using that g by (simp add: authenticateForHiddenNotes_def getHiddenNotesSettings_def Let_def)
  have na: "fst (authenticateForNote plat ls n (Some p))"
    if "ls (getNotePasswordKey n) = Some (hashPassword p)" "\<not> truthy (ls (getNoteSaltKey n))" "p \<noteq> []"
      "hasPassword (getNoteProtection ls n)"
    using that nt by (simp add: authenticateForNote_def Let_def)
  show ?thesis
    using g nt ga na by (simp add: verifyPassword_salted leg)
qed

lemma hashPassword_orange17: "hashPassword (js ''orange17'') = js ''j4hs5w8''"
  by (simp add: hashPassword_def toStringRadixInt_def js_def digitChar_def)

theorem verifyPassword_salted_and_legacy_witness:
  "generateSalt web_platform \<noteq> [] \<and>
   verifyPassword web_platform (js ''orange17'') (js ''fallback_357wto'') (Some (generateSalt web_platform)) \<and>
   \<not> verifyPassword web_platform (js ''wrong'') (js ''fallback_357wto'') (Some (generateSalt web_platform)) \<and>
   verifyPassword web_platform (js ''orange17'') (js ''j4hs5w8'') None \<and>
   \<not> verifyPassword web_platform (js ''wrong'') (js ''j4hs5w8'') None \<and>
   verifyHiddenNotesPassword web_platform [HIDDEN_NOTES_PASSWORD_KEY \<mapsto> js ''j4hs5w8''] (js ''orange17'') \<and>
   fst (authenticateForHiddenNotes web_platform [HIDDEN_NOTES_PASSWORD_KEY \<mapsto> js ''j4hs5w8'']
          (Some (js ''orange17''))) \<and>
   verifyNotePassword web_platform [getNotePasswordKey (js ''n1'') \<mapsto> js ''j4hs5w8''] (js ''n1'') (js ''orange17'') \<and>
   fst (authenticateForNote web_platform
          [getNoteProtectionKey (js ''n1'') \<mapsto> JSON_stringify \<lparr>hasPassword = True, useBiometric = False\<rparr>,
           getNotePasswordKey (js ''n1'') \<mapsto> js ''j4hs5w8''] (js ''n1'') (Some (js ''orange17'')))"
proof -
  let ?salt = "generateSalt web_platform"
  let ?g = "[HIDDEN_NOTES_PASSWORD_KEY \<mapsto> js ''j4hs5w8'']"
  let ?n = "[getNoteProtectionKey (js ''n1'') \<mapsto> JSON_stringify \<lparr>hasPassword = True, useBiometric = False\<rparr>,
           getNotePasswordKey (js ''n1'') \<mapsto> js ''j4hs5w8'']"
  let ?m = "[getNotePasswordKey (js ''n1'') \<mapsto> js ''j4hs5w8'']"
  have w: "hashPassword (js ''wrong'') \<noteq> js ''j4hs5w8''"
    by (simp add: hashPassword_def toStringRadixInt_def js_def digitChar_def)
  have d: "js ''fallback_o4hdeb'' \<noteq> js ''fallback_357wto''" by (simp add: js_def)
  have salted: "verifyPassword web_platform (js ''orange17'') (js ''fallback_357wto'') (Some ?salt)"
    using verifyPassword_salted_and_legacy
      [where salt = ?salt and plat = web_platform and p = "js ''orange17''" and h = "js ''fallback_357wto''"]
    by (simp add: fallback_orange17)
  have salted_wrong: "\<not> verifyPassword web_platform (js ''wrong'') (js ''fallback_357wto'') (Some ?salt)"
    using d verifyPassword_salted_and_legacy
      [where salt = ?salt and plat = web_platform and p = "js ''wrong''" and h = "js ''fallback_357wto''"]
    by (simp add: fallback_wrong)
  have legacy: "verifyPassword web_platform (js ''orange17'') (js ''j4hs5w8'') None"
    using verifyPassword_salted_and_legacy
      [where plat = web_platform and p = "js ''orange17''" and h = "js ''j4hs5w8''"]
    by (simp add: hashPassword_orange17)
  have legacy_wrong: "\<not> verifyPassword web_platform (js ''wrong'') (js ''j4hs5w8'') None"
    using w verifyPassword_salted_and_legacy
      [where plat = web_platform and p = "js ''wrong''" and h = "js ''j4hs5w8''"]
    by simp
  have global: "verifyHiddenNotesPassword web_platform ?g (js ''orange17'') \<and>
      fst (authenticateForHiddenNotes web_platform ?g (Some (js ''orange17'')))"
    using verifyPassword_salted_and_legacy
      [where plat = web_platform and p = "js ''orange17''" and ls = ?g]
    by (simp add: hashPassword_orange17)
  have note1: "verifyNotePassword web_platform ?m (js ''n1'') (js ''orange17'')"
    using verifyPassword_salted_and_legacy
      [where plat = web_platform and p = "js ''orange17''" and ls = ?m and n = "js ''n1''"]
    by (simp add: hashPassword_orange17)
  have "hasPassword (getNoteProtection ?n (js ''n1''))"
    by (simp add: getNoteProtection_def)
  then have note2: "fst (authenticateForNote web_platform ?n (js ''n1'') (Some (js ''orange17'')))"
    using verifyPassword_salted_and_legacy
      [where plat = web_platform and p = "js ''orange17''" and ls = ?n and n = "js ''n1''"]
    by (simp add: hashPassword_orange17)
  show ?thesis
    using salted salted_wrong legacy legacy_wrong global note1 note2 by simp
qed

end
